theory Spec2Isabelle
  imports Complex_Main "HOL-Library.Word"
begin

section \<open>The fully connected layer of tiny\_cnn\<close>

text \<open>
  A shallow embedding of \<^verbatim>\<open>jni/tiny_cnn/layers/fully_connected_layer.h\<close>.

  \<^item> The scalar type \<^verbatim>\<open>float_t\<close> is a type variable \<open>'a\<close> of the sort
    \<open>{zero,plus,times}\<close>: the model uses \<open>0\<close>, \<open>+\<close> and \<open>*\<close> and no law about
    them, so every result below holds for any arithmetic, rounded or exact, and the
    order of the operations is the order of the source. The worked examples run over
    \<open>real\<close>.
  \<^item> \<^verbatim>\<open>cnn_size_t\<close> and \<^verbatim>\<open>size_t\<close> are declared outside this file; they are words
    of the lengths \<open>'c\<close> and \<open>'s\<close>. The subscript \<^verbatim>\<open>c*out_size_ + i\<close> is computed in
    \<^verbatim>\<open>cnn_size_t\<close> and wraps around there (\<open>subscript\<close>); a loop counter is a natural
    number below the bound of its loop.
  \<^item> \<^verbatim>\<open>vec_t\<close> is a list. \<^verbatim>\<open>operator[]\<close> does not check its subscript; the model
    does, and a read or write outside the vector is the outcome \<open>Inl OutOfRange\<close>,
    a call through a null neighbour pointer the outcome \<open>Inl NullDereference\<close>.
    Neither is an exception of the source: both stand for undefined behaviour.
  \<^item> A mutating member function returns its result together with the new layer.
    The vectors passed in are values: they are distinct objects from the buffers
    the call writes.
\<close>

subsection \<open>Outcomes, vectors, loops\<close>

datatype fault = NullDereference | OutOfRange

type_synonym 'a vec_t = "'a list"

definition and_then :: "fault + 'x \<Rightarrow> ('x \<Rightarrow> fault + 'y) \<Rightarrow> fault + 'y" where
  "and_then m f = (case m of Inl e \<Rightarrow> Inl e | Inr x \<Rightarrow> f x)"

definition rd :: "'a vec_t \<Rightarrow> nat \<Rightarrow> fault + 'a" where
  "rd v i = (if i < length v then Inr (v ! i) else Inl OutOfRange)"

definition wr :: "'a vec_t \<Rightarrow> nat \<Rightarrow> 'a \<Rightarrow> fault + 'a vec_t" where
  "wr v i x = (if i < length v then Inr (v[i := x]) else Inl OutOfRange)"

text \<open>A \<^verbatim>\<open>for\<close> loop over the values \<open>xs\<close>, in order; it stops at the first fault.\<close>

fun for_each :: "'i list \<Rightarrow> ('i \<Rightarrow> 's \<Rightarrow> fault + 's) \<Rightarrow> 's \<Rightarrow> fault + 's" where
  "for_each [] body s = Inr s"
| "for_each (i # rest) body s = and_then (body i s) (for_each rest body)"

text \<open>
  Modelled from the spec: \<^verbatim>\<open>for_i\<close> and \<^verbatim>\<open>for_\<close> of \<^verbatim>\<open>util/parallel_for.h\<close>, the
  parallel dispatch, which ``fans a computation over an index range either
  sequentially or across independent partitions''. \<open>for_i\<close> visits every index of
  \<open>[0, n)\<close> once; \<open>for_\<close> hands the body the blocks of a partition of the range,
  chosen by the dispatcher and a parameter here. The partitions write disjoint
  locations, so the model runs them one after the other.
\<close>

definition for_i :: "nat \<Rightarrow> (nat \<Rightarrow> 's \<Rightarrow> fault + 's) \<Rightarrow> 's \<Rightarrow> fault + 's" where
  "for_i n body s = for_each [0..<n] body s"

type_synonym blocked_range = "nat \<times> nat"

definition for_blocks ::
  "blocked_range list \<Rightarrow> (blocked_range \<Rightarrow> 's \<Rightarrow> fault + 's) \<Rightarrow> 's \<Rightarrow> fault + 's" where
  "for_blocks blocks body s = for_each blocks body s"

text \<open>The blocks \<open>(begin, end)\<close> of a partition of \<open>[lo, hi)\<close>, in ascending order.\<close>

fun partitions :: "nat \<Rightarrow> nat \<Rightarrow> blocked_range list \<Rightarrow> bool" where
  "partitions lo hi [] = (lo = hi)"
| "partitions lo hi ((bg, en) # rest) =
     (bg = lo \<and> bg \<le> en \<and> en \<le> hi \<and> partitions en hi rest)"

subsection \<open>Numeric kernels\<close>

text \<open>
  Modelled from the spec: \<^verbatim>\<open>vectorize::dot\<close> and \<^verbatim>\<open>vectorize::muladd\<close> of
  \<^verbatim>\<open>util/product.h\<close> and \<^verbatim>\<open>sqr\<close> of \<^verbatim>\<open>util/util.h\<close>: ``vector dot-product and
  scaled multiply-accumulate over contiguous ranges''. A pointer into a vector is
  the vector and an offset. \<open>dot\<close> takes the two ranges and sums the products from
  \<open>0\<close>, left to right; \<open>muladd src soff c len dst doff\<close> adds \<open>src[soff+i] * c\<close> to
  \<open>dst[doff+i]\<close> for every \<open>i < len\<close> (\<open>len\<close> is the \<^verbatim>\<open>size\<close> of the source).
\<close>

definition range_of :: "'a vec_t \<Rightarrow> nat \<Rightarrow> nat \<Rightarrow> fault + 'a vec_t" where
  "range_of v off n = (if off + n \<le> length v then Inr (take n (drop off v)) else Inl OutOfRange)"

definition dot :: "'a::{zero,plus,times} vec_t \<Rightarrow> 'a vec_t \<Rightarrow> 'a" where
  "dot s1 s2 = foldl (\<lambda>sum (x, y). sum + x * y) 0 (zip s1 s2)"

definition muladd ::
  "'a::{plus,times} vec_t \<Rightarrow> nat \<Rightarrow> 'a \<Rightarrow> nat \<Rightarrow> 'a vec_t \<Rightarrow> nat \<Rightarrow> fault + 'a vec_t" where
  "muladd src soff c len dst doff =
     for_each [0..<len]
       (\<lambda>i dst. and_then (rd src (soff + i)) (\<lambda>x.
                 and_then (rd dst (doff + i)) (\<lambda>y.
                 wr dst (doff + i) (y + x * c))))
       dst"

definition sqr :: "'a::times \<Rightarrow> 'a" where
  "sqr x = x * x"

subsection \<open>The layer and its neighbours\<close>

text \<open>
  Modelled from the spec: the worker storage of \<^verbatim>\<open>layers/layer.h\<close>, ``pre-activation
  buffer a, output buffer out, upstream-delta buffer prevDelta, per-worker dW/db
  accumulators''. \<open>ws_a\<close> is \<^verbatim>\<open>ws.a_\<close>, \<open>ws_output\<close> is \<^verbatim>\<open>ws.output_\<close>, and so on.
\<close>

record 'a worker_storage =
  ws_a :: "'a vec_t"
  ws_output :: "'a vec_t"
  ws_prev_delta :: "'a vec_t"
  ws_dW :: "'a vec_t"
  ws_db :: "'a vec_t"

text \<open>
  Modelled from the spec: the chain node interface of \<^verbatim>\<open>layers/layer.h\<close>,
  ``\<^verbatim>\<open>output(workerId) -> vector\<close>, \<^verbatim>\<open>activationFunction()\<close>, plus the same three
  propagation operations, implemented polymorphically by every layer kind''. A
  neighbour is any layer kind, seen through the virtual functions this file calls.
  A pass of a neighbour works on the neighbour's own buffers; what comes back here
  is its result or its fault.
\<close>

record 'a node =
  node_output :: "nat \<Rightarrow> 'a vec_t"
  node_df :: "'a \<Rightarrow> 'a"
  node_forward_propagation :: "'a vec_t \<Rightarrow> nat \<Rightarrow> fault + 'a vec_t"
  node_back_propagation :: "'a vec_t \<Rightarrow> nat \<Rightarrow> fault + 'a vec_t"
  node_back_propagation_2nd :: "'a vec_t \<Rightarrow> fault + 'a vec_t"

text \<open>
  The layer: \<^verbatim>\<open>has_bias_\<close> and the members of the base class that this file uses
  through \<^verbatim>\<open>CNN_USE_LAYER_MEMBERS\<close>, without the trailing underscore of the source.
  Modelled from the spec: the base class is declared in \<^verbatim>\<open>layers/layer.h\<close>; its members
  are the buffers of the specification's data model, the links \<open>prev\<close> and \<open>next\<close> (a
  null pointer is \<open>None\<close>) and the activation \<^verbatim>\<open>h_\<close>, here its two functions \<open>h_f\<close> and
  \<open>h_df\<close>.
\<close>

record (overloaded) ('a, 'c::len) fully_connected_layer =
  in_size :: "'c word"
  out_size :: "'c word"
  has_bias :: bool
  W :: "'a vec_t"
  b :: "'a vec_t"
  Whessian :: "'a vec_t"
  bhessian :: "'a vec_t"
  prev_delta2 :: "'a vec_t"
  worker_storage :: "'a worker_storage list"
  h_f :: "'a vec_t \<Rightarrow> nat \<Rightarrow> 'a"
  h_df :: "'a \<Rightarrow> 'a"
  prev :: "'a node option"
  "next" :: "'a node option"

text \<open>
  Modelled from the spec: \<^verbatim>\<open>get_worker_storage\<close> of the base class returns a reference
  to the storage of the worker, ``indexed by an integer worker id''. A write through
  the reference is \<open>set_worker_storage\<close>.
\<close>

definition get_worker_storage ::
  "('a, 'c::len) fully_connected_layer \<Rightarrow> nat \<Rightarrow> fault + 'a worker_storage" where
  "get_worker_storage L index = rd (worker_storage L) index"

definition set_worker_storage ::
  "('a, 'c::len) fully_connected_layer \<Rightarrow> nat \<Rightarrow> 'a worker_storage \<Rightarrow>
   ('a, 'c) fully_connected_layer" where
  "set_worker_storage L index ws = L\<lparr>worker_storage := (worker_storage L)[index := ws]\<rparr>"

text \<open>
  The subscript \<^verbatim>\<open>c*out_size_ + i\<close> of a weight, in the arithmetic of \<^verbatim>\<open>cnn_size_t\<close>.
\<close>

definition subscript :: "('a, 'c::len) fully_connected_layer \<Rightarrow> nat \<Rightarrow> nat \<Rightarrow> nat" where
  "subscript L c i = unat ((of_nat c :: 'c word) * out_size L + of_nat i)"

subsection \<open>Queries\<close>

definition connection_size :: "('a, 'c::len) fully_connected_layer \<Rightarrow> 's::len word" where
  "connection_size L =
     ucast (in_size L) * ucast (out_size L) + of_bool (has_bias L) * ucast (out_size L)"

definition fan_in_size :: "('a, 'c::len) fully_connected_layer \<Rightarrow> 's::len word" where
  "fan_in_size L = ucast (in_size L)"

definition fan_out_size :: "('a, 'c::len) fully_connected_layer \<Rightarrow> 's::len word" where
  "fan_out_size L = ucast (out_size L)"

subsection \<open>Forward propagation\<close>

text \<open>\<^verbatim>\<open>a[i] += W_[c*out_size_ + i] * in[c]\<close>\<close>

definition fp_accumulate ::
  "('a::{zero,plus,times}, 'c::len) fully_connected_layer \<Rightarrow> 'a vec_t \<Rightarrow> nat \<Rightarrow> nat \<Rightarrow>
   'a vec_t \<Rightarrow> fault + 'a vec_t" where
  "fp_accumulate L inp i c av =
     and_then (rd (W L) (subscript L c i)) (\<lambda>w.
     and_then (rd inp c) (\<lambda>x.
     and_then (rd av i) (\<lambda>y.
     wr av i (y + w * x))))"

text \<open>The body of the first \<^verbatim>\<open>for_i\<close>: the pre-activation of output \<open>i\<close>.\<close>

definition fp_pre_activation ::
  "('a::{zero,plus,times}, 'c::len) fully_connected_layer \<Rightarrow> 'a vec_t \<Rightarrow> nat \<Rightarrow>
   'a vec_t \<Rightarrow> fault + 'a vec_t" where
  "fp_pre_activation L inp i av =
     and_then (wr av i 0) (\<lambda>av.
     and_then (for_each [0..<unat (in_size L)] (fp_accumulate L inp i) av) (\<lambda>av.
     if has_bias L
     then and_then (rd (b L) i) (\<lambda>x. and_then (rd av i) (\<lambda>y. wr av i (y + x)))
     else Inr av))"

text \<open>The body of the second \<^verbatim>\<open>for_i\<close>: \<^verbatim>\<open>out[i] = h_.f(a, i)\<close>.\<close>

definition fp_activate ::
  "('a, 'c::len) fully_connected_layer \<Rightarrow> 'a vec_t \<Rightarrow> nat \<Rightarrow> 'a vec_t \<Rightarrow> fault + 'a vec_t" where
  "fp_activate L av i out = wr out i (h_f L av i)"

definition forward_propagation ::
  "('a::{zero,plus,times}, 'c::len) fully_connected_layer \<Rightarrow> 'a vec_t \<Rightarrow> nat \<Rightarrow>
   fault + ('a vec_t \<times> ('a, 'c) fully_connected_layer)" where
  "forward_propagation L inp index =
     and_then (get_worker_storage L index) (\<lambda>ws.
     and_then (for_i (unat (out_size L)) (fp_pre_activation L inp) (ws_a ws)) (\<lambda>av.
     and_then (for_i (unat (out_size L)) (fp_activate L av) (ws_output ws)) (\<lambda>out.
     let L' = set_worker_storage L index (ws\<lparr>ws_a := av, ws_output := out\<rparr>) in
     case next L of
       None \<Rightarrow> Inr (out, L')
     | Some n \<Rightarrow> and_then (node_forward_propagation n out index) (\<lambda>r. Inr (r, L')))))"

subsection \<open>First-order back propagation\<close>

text \<open>
  The body of the first loop:
  \<^verbatim>\<open>prev_delta[c] = vectorize::dot(&curr_delta[0], &W_[c*out_size_], out_size_);\<close>
  \<^verbatim>\<open>prev_delta[c] *= prev_h.df(prev_out[c]);\<close>
\<close>

definition bp_prev_delta ::
  "('a::{zero,plus,times}, 'c::len) fully_connected_layer \<Rightarrow> 'a vec_t \<Rightarrow> 'a vec_t \<Rightarrow>
   ('a \<Rightarrow> 'a) \<Rightarrow> nat \<Rightarrow> 'a vec_t \<Rightarrow> fault + 'a vec_t" where
  "bp_prev_delta L curr_delta prev_out prev_df c pd =
     and_then (range_of curr_delta 0 (unat (out_size L))) (\<lambda>s1.
     and_then (range_of (W L) (subscript L c 0) (unat (out_size L))) (\<lambda>s2.
     and_then (wr pd c (dot s1 s2)) (\<lambda>pd.
     and_then (rd prev_out c) (\<lambda>x.
     and_then (rd pd c) (\<lambda>y.
     wr pd c (y * prev_df x))))))"

text \<open>
  The body of \<^verbatim>\<open>for_\<close>, run on the block \<open>r = (begin, end)\<close>: the weight steps
  of the block, column by column, then its bias steps.
\<close>

definition bp_accumulate ::
  "('a::{zero,plus,times}, 'c::len) fully_connected_layer \<Rightarrow> 'a vec_t \<Rightarrow> 'a vec_t \<Rightarrow>
   blocked_range \<Rightarrow> 'a vec_t \<times> 'a vec_t \<Rightarrow> fault + ('a vec_t \<times> 'a vec_t)" where
  "bp_accumulate L curr_delta prev_out r acc =
     (case (r, acc) of ((bg, en), (dw, dbias)) \<Rightarrow>
     and_then
       (for_each [0..<unat (in_size L)]
          (\<lambda>c dw. and_then (rd prev_out c) (\<lambda>x.
                   muladd curr_delta bg x (en - bg) dw (subscript L c bg)))
          dw) (\<lambda>dw.
     if has_bias L
     then and_then
            (for_each [bg..<en]
               (\<lambda>i dbias. and_then (rd curr_delta i) (\<lambda>x.
                           and_then (rd dbias i) (\<lambda>y.
                           wr dbias i (y + x))))
               dbias) (\<lambda>dbias. Inr (dw, dbias))
     else Inr (dw, dbias)))"

text \<open>
  \<open>blocks\<close> is the partition of \<open>[0, out_size)\<close> that \<^verbatim>\<open>for_\<close> chooses.
  \<^verbatim>\<open>static_cast<int>(index)\<close> keeps the value of a worker id.
\<close>

definition back_propagation ::
  "('a::{zero,plus,times}, 'c::len) fully_connected_layer \<Rightarrow> blocked_range list \<Rightarrow>
   'a vec_t \<Rightarrow> nat \<Rightarrow> fault + ('a vec_t \<times> ('a, 'c) fully_connected_layer)" where
  "back_propagation L blocks curr_delta index =
     and_then (get_worker_storage L index) (\<lambda>ws.
     case prev L of
       None \<Rightarrow> Inl NullDereference
     | Some p \<Rightarrow>
         let prev_out = node_output p index; prev_df = node_df p in
         and_then (for_each [0..<unat (in_size L)]
                     (bp_prev_delta L curr_delta prev_out prev_df) (ws_prev_delta ws)) (\<lambda>pd.
         and_then (for_blocks blocks (bp_accumulate L curr_delta prev_out)
                     (ws_dW ws, ws_db ws)) (\<lambda>(dw, dbias).
         let L' = set_worker_storage L index
                    (ws\<lparr>ws_prev_delta := pd, ws_dW := dw, ws_db := dbias\<rparr>) in
         and_then (node_back_propagation p pd index) (\<lambda>r. Inr (r, L')))))"

subsection \<open>Second-order back propagation\<close>

text \<open>\<^verbatim>\<open>Whessian_[c*out_size_ + r] += current_delta2[r] * sqr(prev_out[c])\<close>\<close>

definition bp2_Whessian ::
  "('a::{zero,plus,times}, 'c::len) fully_connected_layer \<Rightarrow> 'a vec_t \<Rightarrow> 'a vec_t \<Rightarrow>
   nat \<Rightarrow> nat \<Rightarrow> 'a vec_t \<Rightarrow> fault + 'a vec_t" where
  "bp2_Whessian L current_delta2 prev_out c r wh =
     and_then (rd current_delta2 r) (\<lambda>d.
     and_then (rd prev_out c) (\<lambda>x.
     and_then (rd wh (subscript L c r)) (\<lambda>y.
     wr wh (subscript L c r) (y + d * sqr x))))"

text \<open>\<^verbatim>\<open>bhessian_[r] += current_delta2[r]\<close>\<close>

definition bp2_bhessian :: "'a::plus vec_t \<Rightarrow> nat \<Rightarrow> 'a vec_t \<Rightarrow> fault + 'a vec_t" where
  "bp2_bhessian current_delta2 r bh =
     and_then (rd current_delta2 r) (\<lambda>d.
     and_then (rd bh r) (\<lambda>y.
     wr bh r (y + d)))"

text \<open>\<^verbatim>\<open>prev_delta2_[c] += current_delta2[r] * sqr(W_[c*out_size_ + r])\<close>\<close>

definition bp2_accumulate ::
  "('a::{zero,plus,times}, 'c::len) fully_connected_layer \<Rightarrow> 'a vec_t \<Rightarrow> nat \<Rightarrow> nat \<Rightarrow>
   'a vec_t \<Rightarrow> fault + 'a vec_t" where
  "bp2_accumulate L current_delta2 c r pd2 =
     and_then (rd current_delta2 r) (\<lambda>d.
     and_then (rd (W L) (subscript L c r)) (\<lambda>w.
     and_then (rd pd2 c) (\<lambda>y.
     wr pd2 c (y + d * sqr w))))"

text \<open>The body of the last loop: the propagated delta of input \<open>c\<close>.\<close>

definition bp2_prev_delta2 ::
  "('a::{zero,plus,times}, 'c::len) fully_connected_layer \<Rightarrow> 'a vec_t \<Rightarrow> 'a vec_t \<Rightarrow>
   ('a \<Rightarrow> 'a) \<Rightarrow> nat \<Rightarrow> 'a vec_t \<Rightarrow> fault + 'a vec_t" where
  "bp2_prev_delta2 L current_delta2 prev_out prev_df c pd2 =
     and_then (wr pd2 c 0) (\<lambda>pd2.
     and_then (for_each [0..<unat (out_size L)] (bp2_accumulate L current_delta2 c) pd2) (\<lambda>pd2.
     and_then (rd prev_out c) (\<lambda>x.
     and_then (rd pd2 c) (\<lambda>y.
     wr pd2 c (y * sqr (prev_df x))))))"

definition back_propagation_2nd ::
  "('a::{zero,plus,times}, 'c::len) fully_connected_layer \<Rightarrow> 'a vec_t \<Rightarrow>
   fault + ('a vec_t \<times> ('a, 'c) fully_connected_layer)" where
  "back_propagation_2nd L current_delta2 =
     (case prev L of
       None \<Rightarrow> Inl NullDereference
     | Some p \<Rightarrow>
         let prev_out = node_output p 0; prev_df = node_df p in
         and_then (for_each [0..<unat (in_size L)]
                     (\<lambda>c. for_each [0..<unat (out_size L)]
                             (bp2_Whessian L current_delta2 prev_out c))
                     (Whessian L)) (\<lambda>wh.
         and_then (if has_bias L
                   then for_each [0..<unat (out_size L)] (bp2_bhessian current_delta2)
                          (bhessian L)
                   else Inr (bhessian L)) (\<lambda>bh.
         and_then (for_each [0..<unat (in_size L)]
                     (bp2_prev_delta2 L current_delta2 prev_out prev_df)
                     (prev_delta2 L)) (\<lambda>pd2.
         let L' = L\<lparr>Whessian := wh, bhessian := bh, prev_delta2 := pd2\<rparr> in
         and_then (node_back_propagation_2nd p pd2) (\<lambda>r. Inr (r, L'))))))"

subsection \<open>The data model\<close>

text \<open>
  The invariants of the layer: every buffer has the length its dimension gives it,
  the bias buffers the length \<open>out_size\<close> with a bias and \<open>0\<close> without
  (\<^verbatim>\<open>has_bias ? out_dim : 0\<close> in the constructor), and the number of weights fits
  \<^verbatim>\<open>cnn_size_t\<close>, the type that subscripts them.
\<close>

definition bias_dim :: "('a, 'c::len) fully_connected_layer \<Rightarrow> nat" where
  "bias_dim L = (if has_bias L then unat (out_size L) else 0)"

definition weight_dim :: "('a, 'c::len) fully_connected_layer \<Rightarrow> nat" where
  "weight_dim L = unat (in_size L) * unat (out_size L)"

definition storage_ok :: "('a, 'c::len) fully_connected_layer \<Rightarrow> 'a worker_storage \<Rightarrow> bool" where
  "storage_ok L ws \<longleftrightarrow>
     length (ws_a ws) = unat (out_size L) \<and>
     length (ws_output ws) = unat (out_size L) \<and>
     length (ws_prev_delta ws) = unat (in_size L) \<and>
     length (ws_dW ws) = weight_dim L \<and>
     length (ws_db ws) = bias_dim L"

definition layer_ok :: "('a, 'c::len) fully_connected_layer \<Rightarrow> bool" where
  "layer_ok L \<longleftrightarrow>
     weight_dim L < 2 ^ LENGTH('c) \<and>
     length (W L) = weight_dim L \<and>
     length (b L) = bias_dim L \<and>
     length (Whessian L) = weight_dim L \<and>
     length (bhessian L) = bias_dim L \<and>
     length (prev_delta2 L) = unat (in_size L) \<and>
     list_all (storage_ok L) (worker_storage L)"

subsection \<open>What the passes compute\<close>

text \<open>
  The values the statements below speak about, written after the specification: the
  sum \<open>\<Sum>c. W[c * out_size + i] * input[c]\<close>, accumulated from \<open>0\<close> in the order of
  \<open>c\<close>; the pre-activation, with the bias added last; the vectors \<open>a\<close> and \<open>out\<close>; the
  delta handed upstream by the first-order and by the second-order pass.
\<close>

definition spec_weighted_sum ::
  "('a::{zero,plus,times}, 'c::len) fully_connected_layer \<Rightarrow> 'a vec_t \<Rightarrow> nat \<Rightarrow> 'a" where
  "spec_weighted_sum L inp i =
     foldl (\<lambda>s c. s + W L ! (c * unat (out_size L) + i) * inp ! c) 0 [0..<unat (in_size L)]"

definition spec_pre_activation ::
  "('a::{zero,plus,times}, 'c::len) fully_connected_layer \<Rightarrow> 'a vec_t \<Rightarrow> nat \<Rightarrow> 'a" where
  "spec_pre_activation L inp i =
     (if has_bias L then spec_weighted_sum L inp i + b L ! i else spec_weighted_sum L inp i)"

definition spec_a ::
  "('a::{zero,plus,times}, 'c::len) fully_connected_layer \<Rightarrow> 'a vec_t \<Rightarrow> 'a vec_t" where
  "spec_a L inp = map (spec_pre_activation L inp) [0..<unat (out_size L)]"

definition spec_out ::
  "('a::{zero,plus,times}, 'c::len) fully_connected_layer \<Rightarrow> 'a vec_t \<Rightarrow> 'a vec_t" where
  "spec_out L inp = map (h_f L (spec_a L inp)) [0..<unat (out_size L)]"

definition spec_prev_delta ::
  "('a::{zero,plus,times}, 'c::len) fully_connected_layer \<Rightarrow> 'a vec_t \<Rightarrow> 'a node \<Rightarrow> nat \<Rightarrow>
   nat \<Rightarrow> 'a" where
  "spec_prev_delta L curr_delta p index c =
     dot (take (unat (out_size L)) curr_delta)
         (take (unat (out_size L)) (drop (c * unat (out_size L)) (W L)))
     * node_df p (node_output p index ! c)"

definition spec_prev_delta2 ::
  "('a::{zero,plus,times}, 'c::len) fully_connected_layer \<Rightarrow> 'a vec_t \<Rightarrow> 'a node \<Rightarrow> nat \<Rightarrow> 'a" where
  "spec_prev_delta2 L current_delta2 p c =
     foldl (\<lambda>s r. s + current_delta2 ! r * sqr (W L ! (c * unat (out_size L) + r))) 0
       [0..<unat (out_size L)]
     * sqr (node_df p (node_output p 0 ! c))"

text \<open>The bias-related buffers of a layer: \<open>b\<close>, \<open>bhessian\<close> and every worker's \<open>db\<close>.\<close>

definition bias_buffers ::
  "('a, 'c::len) fully_connected_layer \<Rightarrow> 'a vec_t \<times> 'a vec_t \<times> 'a vec_t list" where
  "bias_buffers L = (b L, bhessian L, map ws_db (worker_storage L))"

text \<open>
  \<open>add_cell k x\<close> is the statement \<^verbatim>\<open>v[k] += x\<close>; the loops of the three passes are
  rewritten to loops of it in the proofs.
\<close>

definition add_cell :: "nat \<Rightarrow> 'a::plus \<Rightarrow> 'a vec_t \<Rightarrow> fault + 'a vec_t" where
  "add_cell k x v = (if k < length v then Inr (v[k := v ! k + x]) else Inl OutOfRange)"

subsection \<open>A worked example\<close>

text \<open>
  The layer of the specification's worked example: two inputs, one output, a bias,
  \<open>W = [0.5, -0.5]\<close>, \<open>b = [0.1]\<close>, the identity activation, two workers with zeroed
  buffers. Its upstream neighbour is an input node with the identity activation that
  caches the output \<open>[2, 4]\<close> for worker \<open>0\<close> and \<open>[3, 5]\<close> for the others and whose
  backward passes return the delta they are given. \<open>example_no_bias\<close> is the same
  layer without a bias.
\<close>

definition example_storage :: "real worker_storage" where
  "example_storage = \<lparr>ws_a = [0], ws_output = [0], ws_prev_delta = [0, 0], ws_dW = [0, 0], ws_db = [0]\<rparr>"

definition example_input :: "real node" where
  "example_input =
     \<lparr>node_output = (\<lambda>w. if w = 0 then [2, 4] else [3, 5]),
      node_df = (\<lambda>x. 1),
      node_forward_propagation = (\<lambda>v w. Inr v),
      node_back_propagation = (\<lambda>d w. Inr d),
      node_back_propagation_2nd = (\<lambda>d. Inr d)\<rparr>"

definition example_layer :: "(real, 32) fully_connected_layer" where
  "example_layer =
     \<lparr>in_size = 2, out_size = 1, has_bias = True,
      W = [1/2, - (1/2)], b = [1/10],
      Whessian = [0, 0], bhessian = [0], prev_delta2 = [0, 0],
      worker_storage = [example_storage, example_storage],
      h_f = (\<lambda>v i. v ! i), h_df = (\<lambda>x. 1),
      prev = Some example_input, next = None\<rparr>"

definition example_no_bias :: "(real, 32) fully_connected_layer" where
  "example_no_bias =
     example_layer\<lparr>has_bias := False, b := [], bhessian := [],
       worker_storage := [example_storage\<lparr>ws_db := []\<rparr>, example_storage\<lparr>ws_db := []\<rparr>]\<rparr>"

text \<open>
  The example layer cut off from its upstream node; a neighbour whose passes fault (as
  those of a layer that has no upstream node itself); and the example layer between two
  such neighbours.
\<close>

definition example_detached :: "(real, 32) fully_connected_layer" where
  "example_detached = example_layer\<lparr>prev := None\<rparr>"

definition example_faulting :: "real node" where
  "example_faulting =
     example_input\<lparr>node_forward_propagation := (\<lambda>v w. Inl NullDereference),
                   node_back_propagation := (\<lambda>d w. Inl NullDereference),
                   node_back_propagation_2nd := (\<lambda>d. Inl NullDereference)\<rparr>"

definition example_between :: "(real, 32) fully_connected_layer" where
  "example_between =
     example_layer\<lparr>prev := Some example_faulting, next := Some example_faulting\<rparr>"

text \<open>
  What a second-order pass yields: its result, the two Hessian accumulators and the
  propagated delta.
\<close>

definition second_order_outcome ::
  "('a::{zero,plus,times}, 'c::len) fully_connected_layer \<Rightarrow> 'a vec_t \<Rightarrow>
   fault + ('a vec_t \<times> 'a vec_t \<times> 'a vec_t \<times> 'a vec_t)" where
  "second_order_outcome L current_delta2 =
     map_sum id (\<lambda>(r, M). (r, Whessian M, bhessian M, prev_delta2 M))
       (back_propagation_2nd L current_delta2)"

section \<open>Loops\<close>

lemma and_then_Inr [simp]: "and_then (Inr x) f = f x"
  by (simp add: and_then_def)

lemma and_then_Inl [simp]: "and_then (Inl e) f = Inl e"
  by (simp add: and_then_def)

lemma rd_in_range [simp]: "i < length v \<Longrightarrow> rd v i = Inr (v ! i)"
  by (simp add: rd_def)

lemma rd_out_of_range [simp]: "\<not> i < length v \<Longrightarrow> rd v i = Inl OutOfRange"
  by (simp add: rd_def)

lemma wr_in_range [simp]: "i < length v \<Longrightarrow> wr v i x = Inr (v[i := x])"
  by (simp add: wr_def)

lemma wr_out_of_range [simp]: "\<not> i < length v \<Longrightarrow> wr v i x = Inl OutOfRange"
  by (simp add: wr_def)

lemma for_each_append:
  "for_each (xs @ ys) body s = and_then (for_each xs body s) (for_each ys body)"
proof (induction xs arbitrary: s)
  case Nil
  show ?case by simp
next
  case (Cons x xs)
  show ?case
  proof (cases "body x s")
    case (Inl e)
    then show ?thesis by simp
  next
    case (Inr t)
    then show ?thesis by (simp add: Cons.IH)
  qed
qed

lemma for_each_snoc:
  "for_each (xs @ [x]) body s = and_then (for_each xs body s) (body x)"
proof -
  have "for_each [x] body = body x"
  proof
    fix t show "for_each [x] body t = body x t"
      by (cases "body x t") simp_all
  qed
  then show ?thesis by (simp add: for_each_append)
qed

lemma for_each_cong:
  assumes "\<And>i t. i \<in> set xs \<Longrightarrow> body i t = body' i t"
  shows "for_each xs body s = for_each xs body' s"
  using assms
proof (induction xs arbitrary: s)
  case Nil
  show ?case by simp
next
  case (Cons x xs)
  have step: "body x s = body' x s" by (simp add: Cons.prems)
  have rest: "for_each xs body = for_each xs body'"
  proof
    fix t show "for_each xs body t = for_each xs body' t"
      by (rule Cons.IH) (simp add: Cons.prems)
  qed
  show ?case by (simp add: step rest)
qed

lemma for_each_map:
  "for_each (map h xs) body s = for_each xs (\<lambda>j. body (h j)) s"
proof (induction xs arbitrary: s)
  case Nil
  show ?case by simp
next
  case (Cons x xs)
  have "for_each (map h xs) body = for_each xs (\<lambda>j. body (h j))"
    using Cons.IH by blast
  then show ?case by simp
qed

text \<open>A loop that adds to one cell accumulates from the left.\<close>

lemma accumulate_cell:
  assumes "i < length v"
  shows "for_each xs (\<lambda>c. add_cell i (g c)) v = Inr (v[i := foldl (\<lambda>s c. s + g c) (v ! i) xs])"
  using assms
proof (induction xs arbitrary: v)
  case Nil
  then show ?case by simp
next
  case (Cons x xs)
  let ?v = "v[i := v ! i + g x]"
  have "for_each xs (\<lambda>c. add_cell i (g c)) ?v
        = Inr (?v[i := foldl (\<lambda>s c. s + g c) (?v ! i) xs])"
    by (rule Cons.IH) (simp add: Cons.prems)
  moreover have "add_cell i (g x) v = Inr ?v"
    using Cons.prems by (simp add: add_cell_def)
  ultimately show ?case using Cons.prems by simp
qed

text \<open>A loop that assigns cell \<open>i\<close> in round \<open>i\<close>.\<close>

lemma assign_cells:
  assumes "n \<le> length v"
    and "\<And>i u. i < n \<Longrightarrow> length u = length v \<Longrightarrow> body i u = Inr (u[i := g i])"
  shows "for_each [0..<n] body v = Inr (map g [0..<n] @ drop n v)"
  using assms
proof (induction n)
  case 0
  show ?case by simp
next
  case (Suc n)
  let ?u = "map g [0..<n] @ drop n v"
  have loop: "for_each [0..<n] body v = Inr ?u"
    using Suc.prems by (intro Suc.IH) simp_all
  have len: "length ?u = length v" using Suc.prems by simp
  have "?u[n := g n] = map g [0..<Suc n] @ drop (Suc n) v"
  proof (rule nth_equalityI)
    show "length (?u[n := g n]) = length (map g [0..<Suc n] @ drop (Suc n) v)"
      using Suc.prems by simp
  next
    fix k assume "k < length (?u[n := g n])"
    then have k: "k < length v" using len by simp
    show "?u[n := g n] ! k = (map g [0..<Suc n] @ drop (Suc n) v) ! k"
    proof (cases "k < n")
      case True
      then show ?thesis using k by (simp add: nth_append)
    next
      case False
      show ?thesis
      proof (cases "k = n")
        case True
        then show ?thesis using k by (simp add: nth_append)
      next
        case neq: False
        then have "Suc n \<le> k" using False by simp
        then show ?thesis using k Suc.prems(1) neq
          by (simp add: nth_append Suc_diff_Suc less_Suc_eq)
      qed
    qed
  qed
  then show ?case
    using Suc.prems(2)[of n ?u] len by (simp add: for_each_snoc loop)
qed

lemma add_cell_in_range: "k < length v \<Longrightarrow> add_cell k x v = Inr (v[k := v ! k + x])"
  by (simp add: add_cell_def)

text \<open>A loop that adds to the cells \<open>off + lo, \<dots>, off + hi - 1\<close>, once each.\<close>

lemma add_cells:
  assumes "lo \<le> hi" and "off + hi \<le> length v"
  shows "\<exists>v'. for_each [lo..<hi] (\<lambda>i. add_cell (off + i) (g i)) v = Inr v' \<and>
           length v' = length v \<and>
           (\<forall>k<length v. v' ! k =
              (if off + lo \<le> k \<and> k < off + hi then v ! k + g (k - off) else v ! k))"
  using assms
proof (induction rule: dec_induct)
  case base
  have "\<forall>k<length v. v ! k =
      (if off + lo \<le> k \<and> k < off + lo then v ! k + g (k - off) else v ! k)"
    by auto
  then show ?case by simp
next
  case (step n)
  from step obtain v1 where
    loop: "for_each [lo..<n] (\<lambda>i. add_cell (off + i) (g i)) v = Inr v1" and
    len: "length v1 = length v" and
    cells: "\<And>k. k < length v \<Longrightarrow> v1 ! k =
              (if off + lo \<le> k \<and> k < off + n then v ! k + g (k - off) else v ! k)"
    by auto
  let ?v2 = "v1[off + n := v1 ! (off + n) + g n]"
  have in_range: "off + n < length v1" using step.prems len by simp
  have "for_each [lo..<Suc n] (\<lambda>i. add_cell (off + i) (g i)) v = Inr ?v2"
    using step.hyps(1) in_range by (simp add: for_each_snoc loop add_cell_in_range)
  moreover have "length ?v2 = length v" using len by simp
  moreover have "\<forall>k<length v. ?v2 ! k =
      (if off + lo \<le> k \<and> k < off + Suc n then v ! k + g (k - off) else v ! k)"
  proof (intro allI impI)
    fix k assume k: "k < length v"
    show "?v2 ! k = (if off + lo \<le> k \<and> k < off + Suc n then v ! k + g (k - off) else v ! k)"
    proof (cases "k = off + n")
      case True
      then show ?thesis using in_range cells[of k] k step.hyps(1) by simp
    next
      case False
      then show ?thesis using in_range cells[of k] k by (simp add: less_Suc_eq)
    qed
  qed
  ultimately show ?case by blast
qed

lemma cell_in_row:
  fixes out :: nat
  assumes "i < out" and "en \<le> out"
  shows "(n * out + bg \<le> c * out + i \<and> c * out + i < n * out + en) \<longleftrightarrow>
         (c = n \<and> bg \<le> i \<and> i < en)"
proof (cases "c < n")
  case True
  then have "Suc c * out \<le> n * out" by (intro mult_le_mono1) simp
  then have "c * out + i < n * out" using assms(1) by simp
  then show ?thesis using True by simp
next
  case False
  show ?thesis
  proof (cases "c = n")
    case True
    then show ?thesis by simp
  next
    case neq: False
    then have "Suc n * out \<le> c * out" using False by (intro mult_le_mono1) simp
    then have "n * out + en \<le> c * out + i" using assms(2) by simp
    then show ?thesis using neq by simp
  qed
qed

text \<open>
  A loop over the columns \<open>c < n\<close> of a buffer with rows of length \<open>out\<close> that adds to
  the cells \<open>bg, \<dots>, en - 1\<close> of each column, once each.
\<close>

lemma add_rect:
  fixes out :: nat
  assumes "bg \<le> en" and "en \<le> out" and "n * out \<le> length v"
  shows "\<exists>v'. for_each [0..<n] (\<lambda>c. for_each [bg..<en] (\<lambda>i. add_cell (c * out + i) (g c i))) v
              = Inr v' \<and>
           length v' = length v \<and>
           (\<forall>c i. i < out \<longrightarrow> c * out + i < length v \<longrightarrow> v' ! (c * out + i) =
              (if c < n \<and> bg \<le> i \<and> i < en then v ! (c * out + i) + g c i
               else v ! (c * out + i)))"
  using assms(3)
proof (induction n)
  case 0
  show ?case by simp
next
  case (Suc n)
  let ?row = "\<lambda>c. for_each [bg..<en] (\<lambda>i. add_cell (c * out + i) (g c i))"
  from Suc obtain v1 where
    loop: "for_each [0..<n] ?row v = Inr v1" and
    len1: "length v1 = length v" and
    cells1: "\<And>c i. i < out \<Longrightarrow> c * out + i < length v \<Longrightarrow> v1 ! (c * out + i) =
               (if c < n \<and> bg \<le> i \<and> i < en then v ! (c * out + i) + g c i
                else v ! (c * out + i))"
    by auto
  have fits: "n * out + en \<le> length v1"
    using Suc.prems assms(2) len1 by simp
  from add_cells[OF assms(1) fits, of "g n"] obtain v2 where
    row: "?row n v1 = Inr v2" and
    len2: "length v2 = length v1" and
    cells2: "\<And>k. k < length v1 \<Longrightarrow> v2 ! k =
               (if n * out + bg \<le> k \<and> k < n * out + en then v1 ! k + g n (k - n * out)
                else v1 ! k)"
    by auto
  have "for_each [0..<Suc n] ?row v = Inr v2"
    by (simp add: for_each_snoc loop row)
  moreover have "length v2 = length v" using len1 len2 by simp
  moreover have "\<forall>c i. i < out \<longrightarrow> c * out + i < length v \<longrightarrow> v2 ! (c * out + i) =
      (if c < Suc n \<and> bg \<le> i \<and> i < en then v ! (c * out + i) + g c i
       else v ! (c * out + i))"
  proof (intro allI impI)
    fix c i assume i: "i < out" and k: "c * out + i < length v"
    note here = cell_in_row[OF i assms(2), of n bg c]
    show "v2 ! (c * out + i) =
      (if c < Suc n \<and> bg \<le> i \<and> i < en then v ! (c * out + i) + g c i
       else v ! (c * out + i))"
    proof (cases "c = n \<and> bg \<le> i \<and> i < en")
      case True
      then have "n * out + bg \<le> c * out + i \<and> c * out + i < n * out + en"
        using here by blast
      then have "v2 ! (c * out + i) = v1 ! (c * out + i) + g n (c * out + i - n * out)"
        using cells2[of "c * out + i"] k len1 by simp
      then have "v2 ! (c * out + i) = v1 ! (c * out + i) + g n i"
        using True by simp
      then show ?thesis using True cells1[OF i k] by simp
    next
      case False
      then have "\<not> (n * out + bg \<le> c * out + i \<and> c * out + i < n * out + en)"
        using here by blast
      then have same: "v2 ! (c * out + i) = v1 ! (c * out + i)"
        using cells2[of "c * out + i"] k len1 by auto
      have "(c < Suc n \<and> bg \<le> i \<and> i < en) \<longleftrightarrow> (c < n \<and> bg \<le> i \<and> i < en)"
        using False by (auto simp: less_Suc_eq)
      then show ?thesis using same cells1[OF i k] by simp
    qed
  qed
  ultimately show ?case by blast
qed

section \<open>Forward propagation\<close>

text \<open>In exact arithmetic the accumulated sum is the sum over the inputs.\<close>

lemma foldl_add_sum:
  fixes g :: "nat \<Rightarrow> 'a::comm_monoid_add"
  shows "foldl (\<lambda>s c. s + g c) z [0..<n] = z + (\<Sum>c<n. g c)"
  by (induction n) (simp_all add: add.assoc)

lemma spec_weighted_sum_sum:
  fixes L :: "('a::semiring_0, 'c::len) fully_connected_layer"
  shows "spec_weighted_sum L inp i
         = (\<Sum>c<unat (in_size L). W L ! (c * unat (out_size L) + i) * inp ! c)"
  by (simp add: spec_weighted_sum_def foldl_add_sum)

lemma cell_index_bound:
  fixes out :: nat
  assumes "c < n" and "i < out"
  shows "c * out + i < n * out"
proof -
  have "Suc c * out \<le> n * out" using assms(1) by (intro mult_le_mono1) simp
  then show ?thesis using assms(2) by simp
qed

text \<open>
  A subscript wraps around when the weights do not fit \<^verbatim>\<open>cnn_size_t\<close>: with 8 bits and
  16 outputs, weight 3 of column 16 is read at 3, not at 259.
\<close>

lemma subscript_wraps:
  fixes L :: "('a, 8) fully_connected_layer"
  shows "subscript (L\<lparr>out_size := 16\<rparr>) 16 3 = 3"
  by (simp add: subscript_def)

text \<open>No subscript of a layer whose weights fit \<^verbatim>\<open>cnn_size_t\<close> wraps around.\<close>

lemma subscript_eq:
  fixes L :: "('a, 'c::len) fully_connected_layer"
  assumes "weight_dim L < 2 ^ LENGTH('c)" and "c < unat (in_size L)"
    and "i \<le> unat (out_size L)"
  shows "subscript L c i = c * unat (out_size L) + i"
proof -
  have "Suc c * unat (out_size L) \<le> unat (in_size L) * unat (out_size L)"
    using assms(2) by (intro mult_le_mono1) simp
  then have "c * unat (out_size L) + i < 2 ^ LENGTH('c)"
    using assms(1,3) by (simp add: weight_dim_def)
  then have "unat (of_nat (c * unat (out_size L) + i) :: 'c word) = c * unat (out_size L) + i"
    by (simp only: unat_of_nat mod_less)
  then show ?thesis by (simp add: subscript_def)
qed

lemma fp_accumulate_add_cell:
  assumes "c * unat (out_size L) + i < length (W L)" and "c < length inp"
    and "subscript L c i = c * unat (out_size L) + i"
  shows "fp_accumulate L inp i c = add_cell i (W L ! (c * unat (out_size L) + i) * inp ! c)"
proof
  fix av show "fp_accumulate L inp i c av = add_cell i (W L ! (c * unat (out_size L) + i) * inp ! c) av"
    using assms by (cases "i < length av") (simp_all add: fp_accumulate_def add_cell_def)
qed

lemma fp_pre_activation_eq:
  fixes L :: "('a::{zero,plus,times}, 'c::len) fully_connected_layer"
  assumes "length (W L) = weight_dim L" and "length (b L) = bias_dim L"
    and "i < unat (out_size L)" and "unat (in_size L) \<le> length inp" and "i < length av"
    and "weight_dim L < 2 ^ LENGTH('c)"
  shows "fp_pre_activation L inp i av = Inr (av[i := spec_pre_activation L inp i])"
proof -
  let ?out = "unat (out_size L)"
  let ?g = "\<lambda>c. W L ! (c * ?out + i) * inp ! c"
  have "for_each [0..<unat (in_size L)] (fp_accumulate L inp i) (av[i := 0])
        = for_each [0..<unat (in_size L)] (\<lambda>c. add_cell i (?g c)) (av[i := 0])"
  proof (rule for_each_cong)
    fix c t assume "c \<in> set [0..<unat (in_size L)]"
    then have c: "c < unat (in_size L)" by simp
    then have "c * ?out + i < length (W L)"
      using assms(1,3) by (simp add: weight_dim_def cell_index_bound)
    moreover have "c < length inp" using c assms(4) by simp
    moreover have "subscript L c i = c * ?out + i"
      using assms(6) c assms(3) by (intro subscript_eq) simp_all
    ultimately show "fp_accumulate L inp i c t = add_cell i (?g c) t"
      by (simp add: fp_accumulate_add_cell)
  qed
  also have "\<dots> = Inr (av[i := spec_weighted_sum L inp i])"
    using assms(5) by (simp add: accumulate_cell spec_weighted_sum_def)
  finally have loop: "for_each [0..<unat (in_size L)] (fp_accumulate L inp i) (av[i := 0])
        = Inr (av[i := spec_weighted_sum L inp i])" .
  show ?thesis
  proof (cases "has_bias L")
    case True
    then have "i < length (b L)" using assms(2,3) by (simp add: bias_dim_def)
    then show ?thesis
      using True assms(5) by (simp add: fp_pre_activation_def loop spec_pre_activation_def)
  next
    case False
    then show ?thesis
      using assms(5) by (simp add: fp_pre_activation_def loop spec_pre_activation_def)
  qed
qed

lemma fp_pre_activation_loop:
  fixes L :: "('a::{zero,plus,times}, 'c::len) fully_connected_layer"
  assumes "length (W L) = weight_dim L" and "length (b L) = bias_dim L"
    and "unat (in_size L) \<le> length inp" and "length av = unat (out_size L)"
    and "weight_dim L < 2 ^ LENGTH('c)"
  shows "for_i (unat (out_size L)) (fp_pre_activation L inp) av = Inr (spec_a L inp)"
proof -
  have "for_each [0..<unat (out_size L)] (fp_pre_activation L inp) av
        = Inr (map (spec_pre_activation L inp) [0..<unat (out_size L)] @ drop (unat (out_size L)) av)"
    using assms by (intro assign_cells) (simp_all add: fp_pre_activation_eq)
  then show ?thesis using assms(4) by (simp add: for_i_def spec_a_def)
qed

lemma fp_activate_loop:
  assumes "length out = unat (out_size L)"
  shows "for_i (unat (out_size L)) (fp_activate L av) out
         = Inr (map (h_f L av) [0..<unat (out_size L)])"
proof -
  have "for_each [0..<unat (out_size L)] (fp_activate L av) out
        = Inr (map (h_f L av) [0..<unat (out_size L)] @ drop (unat (out_size L)) out)"
    using assms by (intro assign_cells) (simp_all add: fp_activate_def)
  then show ?thesis using assms by (simp add: for_i_def)
qed

lemma storage_ok_nth:
  "layer_ok L \<Longrightarrow> index < length (worker_storage L) \<Longrightarrow> storage_ok L (worker_storage L ! index)"
  by (simp add: layer_ok_def list_all_length)

lemma forward_propagation_eq:
  assumes "layer_ok L" and "index < length (worker_storage L)"
    and "unat (in_size L) \<le> length inp"
  shows "forward_propagation L inp index =
     (let L' = set_worker_storage L index
                 ((worker_storage L ! index)\<lparr>ws_a := spec_a L inp, ws_output := spec_out L inp\<rparr>)
      in case next L of
           None \<Rightarrow> Inr (spec_out L inp, L')
         | Some n \<Rightarrow> and_then (node_forward_propagation n (spec_out L inp) index)
                       (\<lambda>r. Inr (r, L')))"
proof -
  let ?ws = "worker_storage L ! index"
  have ws: "storage_ok L ?ws" using assms(1,2) by (rule storage_ok_nth)
  have pre: "for_i (unat (out_size L)) (fp_pre_activation L inp) (ws_a ?ws) = Inr (spec_a L inp)"
    using assms(1,3) ws by (intro fp_pre_activation_loop) (simp_all add: layer_ok_def storage_ok_def)
  have act: "for_i (unat (out_size L)) (fp_activate L (spec_a L inp)) (ws_output ?ws)
             = Inr (spec_out L inp)"
    using ws by (simp add: fp_activate_loop storage_ok_def spec_out_def)
  show ?thesis
    using assms(2) by (simp add: forward_propagation_def get_worker_storage_def pre act)
qed

section \<open>First-order back propagation\<close>

lemma range_of_in_range [simp]:
  "off + n \<le> length v \<Longrightarrow> range_of v off n = Inr (take n (drop off v))"
  by (simp add: range_of_def)

lemma bp_prev_delta_eq:
  fixes L :: "('a::{zero,plus,times}, 'c::len) fully_connected_layer"
  assumes "length (W L) = weight_dim L" and "unat (out_size L) \<le> length curr_delta"
    and "c < unat (in_size L)" and "c < length prev_out" and "c < length pd"
    and "weight_dim L < 2 ^ LENGTH('c)"
  shows "bp_prev_delta L curr_delta prev_out prev_df c pd =
         Inr (pd[c := dot (take (unat (out_size L)) curr_delta)
                          (take (unat (out_size L)) (drop (c * unat (out_size L)) (W L)))
                      * prev_df (prev_out ! c)])"
proof -
  have "Suc c * unat (out_size L) \<le> unat (in_size L) * unat (out_size L)"
    using assms(3) by (intro mult_le_mono1) simp
  then have "c * unat (out_size L) + unat (out_size L) \<le> length (W L)"
    using assms(1) by (simp add: weight_dim_def)
  moreover have "subscript L c 0 = c * unat (out_size L)"
    using subscript_eq[OF assms(6,3), of 0] by simp
  ultimately show ?thesis
    using assms(2,4,5) by (simp add: bp_prev_delta_def)
qed

lemma bp_prev_delta_loop:
  fixes L :: "('a::{zero,plus,times}, 'c::len) fully_connected_layer"
  assumes "length (W L) = weight_dim L" and "unat (out_size L) \<le> length curr_delta"
    and "unat (in_size L) \<le> length (node_output p index)"
    and "length pd = unat (in_size L)"
    and "weight_dim L < 2 ^ LENGTH('c)"
  shows "for_each [0..<unat (in_size L)]
           (bp_prev_delta L curr_delta (node_output p index) (node_df p)) pd
         = Inr (map (spec_prev_delta L curr_delta p index) [0..<unat (in_size L)])"
proof -
  have "for_each [0..<unat (in_size L)]
           (bp_prev_delta L curr_delta (node_output p index) (node_df p)) pd
        = Inr (map (spec_prev_delta L curr_delta p index) [0..<unat (in_size L)]
               @ drop (unat (in_size L)) pd)"
    using assms by (intro assign_cells) (simp_all add: bp_prev_delta_eq spec_prev_delta_def)
  then show ?thesis using assms(4) by simp
qed

lemma muladd_add_cells:
  assumes "soff + len \<le> length src"
  shows "muladd src soff c len dst doff
         = for_each [0..<len] (\<lambda>i. add_cell (doff + i) (src ! (soff + i) * c)) dst"
  unfolding muladd_def
proof (rule for_each_cong)
  fix i t assume "i \<in> set [0..<len]"
  then have "soff + i < length src" using assms by simp
  then show "and_then (rd src (soff + i))
               (\<lambda>x. and_then (rd t (doff + i)) (\<lambda>y. wr t (doff + i) (y + x * c)))
             = add_cell (doff + i) (src ! (soff + i) * c) t"
    by (cases "doff + i < length t") (simp_all add: add_cell_def)
qed

lemma for_each_shift:
  assumes "bg \<le> en"
  shows "for_each [bg..<en] body s = for_each [0..<en - bg] (\<lambda>j. body (bg + j)) s"
proof -
  have "map (\<lambda>j. j + bg) [0..<en - bg] = [bg..<en - bg + bg]"
    by (rule map_add_upt)
  then have "[bg..<en] = map (\<lambda>j. bg + j) [0..<en - bg]"
    using assms by (simp add: add.commute)
  then have "for_each [bg..<en] body s = for_each (map (\<lambda>j. bg + j) [0..<en - bg]) body s"
    by (rule arg_cong)
  then show ?thesis by (simp only: for_each_map)
qed

lemma bp_column_add_cells:
  assumes "bg \<le> en" and "en \<le> length curr_delta" and "c < length prev_out"
  shows "and_then (rd prev_out c) (\<lambda>x. muladd curr_delta bg x (en - bg) dw (c * out + bg))
         = for_each [bg..<en] (\<lambda>i. add_cell (c * out + i) (curr_delta ! i * prev_out ! c)) dw"
proof -
  have "bg + (en - bg) \<le> length curr_delta" using assms(1,2) by simp
  then have "muladd curr_delta bg (prev_out ! c) (en - bg) dw (c * out + bg)
     = for_each [0..<en - bg]
         (\<lambda>j. add_cell (c * out + bg + j) (curr_delta ! (bg + j) * prev_out ! c)) dw"
    by (rule muladd_add_cells)
  also have "\<dots> = for_each [bg..<en]
         (\<lambda>i. add_cell (c * out + i) (curr_delta ! i * prev_out ! c)) dw"
    by (simp only: for_each_shift[OF assms(1)] add.assoc)
  finally show ?thesis using assms(3) by simp
qed

lemma bp_db_add_cell:
  assumes "i < length curr_delta"
  shows "and_then (rd curr_delta i) (\<lambda>x. and_then (rd dbias i) (\<lambda>y. wr dbias i (y + x)))
         = add_cell (0 + i) (curr_delta ! i) dbias"
  using assms by (cases "i < length dbias") (simp_all add: add_cell_def)

lemma bp_accumulate_block:
  fixes L :: "('a::{zero,plus,times}, 'c::len) fully_connected_layer"
  assumes "bg \<le> en" and "en \<le> unat (out_size L)"
    and "unat (out_size L) \<le> length curr_delta"
    and "unat (in_size L) \<le> length prev_out"
    and "length dw = weight_dim L" and "length dbias = bias_dim L"
    and "weight_dim L < 2 ^ LENGTH('c)"
  shows "\<exists>dw' dbias'.
           bp_accumulate L curr_delta prev_out (bg, en) (dw, dbias) = Inr (dw', dbias') \<and>
           length dw' = length dw \<and> length dbias' = length dbias \<and>
           (\<forall>c<unat (in_size L). \<forall>i<unat (out_size L).
              dw' ! (c * unat (out_size L) + i) =
                (if bg \<le> i \<and> i < en
                 then dw ! (c * unat (out_size L) + i) + curr_delta ! i * prev_out ! c
                 else dw ! (c * unat (out_size L) + i))) \<and>
           (\<forall>i<length dbias. dbias' ! i =
                (if bg \<le> i \<and> i < en then dbias ! i + curr_delta ! i else dbias ! i))"
proof -
  let ?out = "unat (out_size L)" and ?in = "unat (in_size L)"
  let ?g = "\<lambda>c i. curr_delta ! i * prev_out ! c"
  have cols_eq: "for_each [0..<?in]
          (\<lambda>c dw. and_then (rd prev_out c)
             (\<lambda>x. muladd curr_delta bg x (en - bg) dw (subscript L c bg))) dw
        = for_each [0..<?in] (\<lambda>c. for_each [bg..<en] (\<lambda>i. add_cell (c * ?out + i) (?g c i))) dw"
  proof (rule for_each_cong)
    fix c t assume "c \<in> set [0..<?in]"
    then have c: "c < ?in" by simp
    have "bg \<le> ?out" using assms(1,2) by simp
    with assms(7) c have here: "subscript L c bg = c * ?out + bg" by (rule subscript_eq)
    have "c < length prev_out" using c assms(4) by simp
    moreover have "en \<le> length curr_delta" using assms(2,3) by simp
    ultimately have "and_then (rd prev_out c)
             (\<lambda>x. muladd curr_delta bg x (en - bg) t (c * ?out + bg))
           = for_each [bg..<en] (\<lambda>i. add_cell (c * ?out + i) (?g c i)) t"
      using assms(1) by (intro bp_column_add_cells)
    then show "and_then (rd prev_out c)
             (\<lambda>x. muladd curr_delta bg x (en - bg) t (subscript L c bg))
           = for_each [bg..<en] (\<lambda>i. add_cell (c * ?out + i) (?g c i)) t"
      by (simp only: here)
  qed
  have "?in * ?out \<le> length dw" using assms(5) by (simp add: weight_dim_def)
  from add_rect[OF assms(1,2) this, of ?g] obtain dw' where
    rect: "for_each [0..<?in] (\<lambda>c. for_each [bg..<en] (\<lambda>i. add_cell (c * ?out + i) (?g c i))) dw
           = Inr dw'" and
    len: "length dw' = length dw" and
    cells: "\<forall>c i. i < ?out \<longrightarrow> c * ?out + i < length dw \<longrightarrow> dw' ! (c * ?out + i) =
              (if c < ?in \<and> bg \<le> i \<and> i < en then dw ! (c * ?out + i) + ?g c i
               else dw ! (c * ?out + i))"
    by (elim exE conjE)
  have cols: "for_each [0..<?in]
          (\<lambda>c dw. and_then (rd prev_out c)
             (\<lambda>x. muladd curr_delta bg x (en - bg) dw (subscript L c bg))) dw = Inr dw'"
    using cols_eq rect by (rule trans)
  have dw_cells: "\<forall>c<?in. \<forall>i<?out. dw' ! (c * ?out + i) =
      (if bg \<le> i \<and> i < en then dw ! (c * ?out + i) + ?g c i else dw ! (c * ?out + i))"
  proof (intro allI impI)
    fix c i assume c: "c < ?in" and i: "i < ?out"
    then have "c * ?out + i < length dw"
      using assms(5) by (simp add: weight_dim_def cell_index_bound)
    with cells i c
    show "dw' ! (c * ?out + i) =
      (if bg \<le> i \<and> i < en then dw ! (c * ?out + i) + ?g c i else dw ! (c * ?out + i))"
      by simp
  qed
  show ?thesis
  proof (cases "has_bias L")
    case False
    then have "bp_accumulate L curr_delta prev_out (bg, en) (dw, dbias) = Inr (dw', dbias)"
      by (simp add: bp_accumulate_def cols)
    moreover have "length dbias = 0" using False assms(6) by (simp add: bias_dim_def)
    ultimately show ?thesis using len dw_cells by simp
  next
    case True
    then have lendb: "length dbias = ?out" using assms(6) by (simp add: bias_dim_def)
    have db_eq: "for_each [bg..<en]
            (\<lambda>i dbias. and_then (rd curr_delta i)
               (\<lambda>x. and_then (rd dbias i) (\<lambda>y. wr dbias i (y + x)))) dbias
          = for_each [bg..<en] (\<lambda>i. add_cell (0 + i) (curr_delta ! i)) dbias"
    proof (rule for_each_cong)
      fix i t assume "i \<in> set [bg..<en]"
      then have "i < length curr_delta" using assms(2,3) by simp
      then show "and_then (rd curr_delta i) (\<lambda>x. and_then (rd t i) (\<lambda>y. wr t i (y + x)))
                 = add_cell (0 + i) (curr_delta ! i) t"
        by (rule bp_db_add_cell)
    qed
    have "0 + en \<le> length dbias" using assms(2) lendb by simp
    from add_cells[OF assms(1) this, of "\<lambda>i. curr_delta ! i"] obtain dbias' where
      row: "for_each [bg..<en] (\<lambda>i. add_cell (0 + i) (curr_delta ! i)) dbias = Inr dbias'" and
      lend: "length dbias' = length dbias" and
      dcells0: "\<forall>k<length dbias. dbias' ! k =
                 (if 0 + bg \<le> k \<and> k < 0 + en then dbias ! k + curr_delta ! (k - 0)
                  else dbias ! k)"
      by (elim exE conjE)
    have dcells: "\<forall>k<length dbias. dbias' ! k =
                 (if bg \<le> k \<and> k < en then dbias ! k + curr_delta ! k else dbias ! k)"
      using dcells0 by simp
    have dbl: "for_each [bg..<en]
            (\<lambda>i dbias. and_then (rd curr_delta i)
               (\<lambda>x. and_then (rd dbias i) (\<lambda>y. wr dbias i (y + x)))) dbias = Inr dbias'"
      using db_eq row by (rule trans)
    have "bp_accumulate L curr_delta prev_out (bg, en) (dw, dbias) = Inr (dw', dbias')"
      using True by (simp add: bp_accumulate_def cols dbl)
    then show ?thesis using len lend dw_cells dcells by simp
  qed
qed

lemma bp_accumulate_blocks:
  fixes L :: "('a::{zero,plus,times}, 'c::len) fully_connected_layer"
  assumes "partitions lo (unat (out_size L)) blocks"
    and "unat (out_size L) \<le> length curr_delta"
    and "unat (in_size L) \<le> length prev_out"
    and "length dw = weight_dim L" and "length dbias = bias_dim L"
    and "weight_dim L < 2 ^ LENGTH('c)"
  shows "\<exists>dw' dbias'.
           for_each blocks (bp_accumulate L curr_delta prev_out) (dw, dbias) = Inr (dw', dbias') \<and>
           length dw' = length dw \<and> length dbias' = length dbias \<and>
           (\<forall>c<unat (in_size L). \<forall>i<unat (out_size L).
              dw' ! (c * unat (out_size L) + i) =
                (if lo \<le> i
                 then dw ! (c * unat (out_size L) + i) + curr_delta ! i * prev_out ! c
                 else dw ! (c * unat (out_size L) + i))) \<and>
           (\<forall>i<length dbias. dbias' ! i =
                (if lo \<le> i then dbias ! i + curr_delta ! i else dbias ! i))"
  using assms(1,4,5)
proof (induction blocks arbitrary: lo dw dbias)
  case Nil
  then have "lo = unat (out_size L)" by simp
  moreover have "length dbias \<le> unat (out_size L)"
    using Nil.prems(3) by (simp add: bias_dim_def)
  ultimately show ?case by simp
next
  case (Cons r rest)
  let ?out = "unat (out_size L)" and ?in = "unat (in_size L)"
  obtain bg en where r: "r = (bg, en)" by (cases r)
  from Cons.prems(1) r have bg: "bg = lo" and le: "bg \<le> en" and en: "en \<le> ?out"
    and rest: "partitions en ?out rest"
    by simp_all
  from bp_accumulate_block[OF le en assms(2,3) Cons.prems(2,3) assms(6)] obtain dw1 db1 where
    block: "bp_accumulate L curr_delta prev_out (bg, en) (dw, dbias) = Inr (dw1, db1)" and
    len1: "length dw1 = length dw" "length db1 = length dbias" and
    cells1: "\<forall>c<?in. \<forall>i<?out. dw1 ! (c * ?out + i) =
                (if bg \<le> i \<and> i < en
                 then dw ! (c * ?out + i) + curr_delta ! i * prev_out ! c
                 else dw ! (c * ?out + i))" and
    bias1: "\<forall>i<length dbias. db1 ! i =
                (if bg \<le> i \<and> i < en then dbias ! i + curr_delta ! i else dbias ! i)"
    by (elim exE conjE)
  have "length dw1 = weight_dim L" "length db1 = bias_dim L"
    using len1 Cons.prems(2,3) by simp_all
  from Cons.IH[OF rest this] obtain dw2 db2 where
    loop: "for_each rest (bp_accumulate L curr_delta prev_out) (dw1, db1) = Inr (dw2, db2)" and
    len2: "length dw2 = length dw1" "length db2 = length db1" and
    cells2: "\<forall>c<?in. \<forall>i<?out. dw2 ! (c * ?out + i) =
                (if en \<le> i
                 then dw1 ! (c * ?out + i) + curr_delta ! i * prev_out ! c
                 else dw1 ! (c * ?out + i))" and
    bias2: "\<forall>i<length db1. db2 ! i =
                (if en \<le> i then db1 ! i + curr_delta ! i else db1 ! i)"
    by (elim exE conjE)
  have "for_each (r # rest) (bp_accumulate L curr_delta prev_out) (dw, dbias) = Inr (dw2, db2)"
    by (simp add: r block loop)
  moreover have "length dw2 = length dw" "length db2 = length dbias"
    using len1 len2 by simp_all
  moreover have "\<forall>c<?in. \<forall>i<?out. dw2 ! (c * ?out + i) =
                (if lo \<le> i
                 then dw ! (c * ?out + i) + curr_delta ! i * prev_out ! c
                 else dw ! (c * ?out + i))"
  proof (intro allI impI)
    fix c i assume "c < ?in" "i < ?out"
    with cells1 cells2 have
      "dw1 ! (c * ?out + i) = (if bg \<le> i \<and> i < en
                 then dw ! (c * ?out + i) + curr_delta ! i * prev_out ! c
                 else dw ! (c * ?out + i))"
      "dw2 ! (c * ?out + i) = (if en \<le> i
                 then dw1 ! (c * ?out + i) + curr_delta ! i * prev_out ! c
                 else dw1 ! (c * ?out + i))"
      by simp_all
    then show "dw2 ! (c * ?out + i) = (if lo \<le> i
                 then dw ! (c * ?out + i) + curr_delta ! i * prev_out ! c
                 else dw ! (c * ?out + i))"
      using bg le by (cases "i < en") simp_all
  qed
  moreover have "\<forall>i<length dbias. db2 ! i =
                (if lo \<le> i then dbias ! i + curr_delta ! i else dbias ! i)"
  proof (intro allI impI)
    fix i assume "i < length dbias"
    with bias1 bias2 len1 have
      "db1 ! i = (if bg \<le> i \<and> i < en then dbias ! i + curr_delta ! i else dbias ! i)"
      "db2 ! i = (if en \<le> i then db1 ! i + curr_delta ! i else db1 ! i)"
      by simp_all
    then show "db2 ! i = (if lo \<le> i then dbias ! i + curr_delta ! i else dbias ! i)"
      using bg le by (cases "i < en") simp_all
  qed
  ultimately show ?case by blast
qed

lemma get_worker_storage_in_range:
  "index < length (worker_storage L) \<Longrightarrow> get_worker_storage L index = Inr (worker_storage L ! index)"
  by (simp add: get_worker_storage_def)

lemma back_propagation_eq:
  fixes L :: "('a::{zero,plus,times}, 'c::len) fully_connected_layer"
  assumes "layer_ok L" and "index < length (worker_storage L)" and "prev L = Some p"
    and "partitions 0 (unat (out_size L)) blocks"
    and "unat (out_size L) \<le> length curr_delta"
    and "unat (in_size L) \<le> length (node_output p index)"
  shows "\<exists>dw' dbias'.
     back_propagation L blocks curr_delta index =
       and_then
         (node_back_propagation p
            (map (spec_prev_delta L curr_delta p index) [0..<unat (in_size L)]) index)
         (\<lambda>r. Inr (r, set_worker_storage L index
            ((worker_storage L ! index)
               \<lparr>ws_prev_delta := map (spec_prev_delta L curr_delta p index) [0..<unat (in_size L)],
                ws_dW := dw', ws_db := dbias'\<rparr>))) \<and>
     length dw' = weight_dim L \<and> length dbias' = bias_dim L \<and>
     (\<forall>c<unat (in_size L). \<forall>i<unat (out_size L).
        dw' ! (c * unat (out_size L) + i) =
          ws_dW (worker_storage L ! index) ! (c * unat (out_size L) + i)
          + curr_delta ! i * node_output p index ! c) \<and>
     (\<forall>i<bias_dim L. dbias' ! i = ws_db (worker_storage L ! index) ! i + curr_delta ! i)"
proof -
  let ?ws = "worker_storage L ! index"
  let ?out = "unat (out_size L)" and ?in = "unat (in_size L)"
  have ws: "storage_ok L ?ws" using assms(1,2) by (rule storage_ok_nth)
  have lenW: "length (W L) = weight_dim L" using assms(1) by (simp add: layer_ok_def)
  have fits: "weight_dim L < 2 ^ LENGTH('c)" using assms(1) by (simp add: layer_ok_def)
  have lenpd: "length (ws_prev_delta ?ws) = ?in" using ws by (simp add: storage_ok_def)
  have deltas: "for_each [0..<?in]
           (bp_prev_delta L curr_delta (node_output p index) (node_df p)) (ws_prev_delta ?ws)
         = Inr (map (spec_prev_delta L curr_delta p index) [0..<?in])"
    using lenW assms(5,6) lenpd fits by (rule bp_prev_delta_loop)
  have lens: "length (ws_dW ?ws) = weight_dim L" "length (ws_db ?ws) = bias_dim L"
    using ws by (simp_all add: storage_ok_def)
  from bp_accumulate_blocks[OF assms(4,5,6) lens fits] obtain dw' dbias' where
    grads: "for_each blocks (bp_accumulate L curr_delta (node_output p index))
              (ws_dW ?ws, ws_db ?ws) = Inr (dw', dbias')" and
    len: "length dw' = length (ws_dW ?ws)" "length dbias' = length (ws_db ?ws)" and
    cells: "\<forall>c<?in. \<forall>i<?out. dw' ! (c * ?out + i) =
                (if 0 \<le> i
                 then ws_dW ?ws ! (c * ?out + i) + curr_delta ! i * node_output p index ! c
                 else ws_dW ?ws ! (c * ?out + i))" and
    bias: "\<forall>i<length (ws_db ?ws). dbias' ! i =
                (if 0 \<le> i then ws_db ?ws ! i + curr_delta ! i else ws_db ?ws ! i)"
    by (elim exE conjE)
  have "back_propagation L blocks curr_delta index =
       and_then (node_back_propagation p (map (spec_prev_delta L curr_delta p index) [0..<?in]) index)
         (\<lambda>r. Inr (r, set_worker_storage L index
            (?ws\<lparr>ws_prev_delta := map (spec_prev_delta L curr_delta p index) [0..<?in],
                  ws_dW := dw', ws_db := dbias'\<rparr>)))"
    using assms(2,3)
    by (simp add: back_propagation_def get_worker_storage_in_range deltas for_blocks_def grads)
  moreover have "length dw' = weight_dim L" "length dbias' = bias_dim L"
    using len lens by simp_all
  moreover have "\<forall>c<?in. \<forall>i<?out. dw' ! (c * ?out + i) =
          ws_dW ?ws ! (c * ?out + i) + curr_delta ! i * node_output p index ! c"
    using cells by simp
  moreover have "\<forall>i<bias_dim L. dbias' ! i = ws_db ?ws ! i + curr_delta ! i"
    using bias lens by simp
  ultimately show ?thesis by blast
qed

section \<open>Second-order back propagation\<close>

lemma bp2_Whessian_add_cell:
  assumes "r < length current_delta2" and "c < length prev_out"
    and "subscript L c r = c * unat (out_size L) + r"
  shows "bp2_Whessian L current_delta2 prev_out c r wh
         = add_cell (c * unat (out_size L) + r) (current_delta2 ! r * sqr (prev_out ! c)) wh"
  using assms
  by (cases "c * unat (out_size L) + r < length wh") (simp_all add: bp2_Whessian_def add_cell_def)

lemma bp2_bhessian_add_cell:
  assumes "r < length current_delta2"
  shows "bp2_bhessian current_delta2 r bh = add_cell (0 + r) (current_delta2 ! r) bh"
  using assms by (cases "r < length bh") (simp_all add: bp2_bhessian_def add_cell_def)

lemma bp2_accumulate_add_cell:
  assumes "r < length current_delta2" and "c * unat (out_size L) + r < length (W L)"
    and "subscript L c r = c * unat (out_size L) + r"
  shows "bp2_accumulate L current_delta2 c r pd2
         = add_cell c (current_delta2 ! r * sqr (W L ! (c * unat (out_size L) + r))) pd2"
  using assms by (cases "c < length pd2") (simp_all add: bp2_accumulate_def add_cell_def)

lemma bp2_prev_delta2_eq:
  fixes L :: "('a::{zero,plus,times}, 'c::len) fully_connected_layer"
  assumes "length (W L) = weight_dim L" and "unat (out_size L) \<le> length current_delta2"
    and "c < unat (in_size L)" and "c < length (node_output p 0)" and "c < length pd2"
    and "weight_dim L < 2 ^ LENGTH('c)"
  shows "bp2_prev_delta2 L current_delta2 (node_output p 0) (node_df p) c pd2
         = Inr (pd2[c := spec_prev_delta2 L current_delta2 p c])"
proof -
  let ?out = "unat (out_size L)"
  let ?g = "\<lambda>r. current_delta2 ! r * sqr (W L ! (c * ?out + r))"
  have "for_each [0..<?out] (bp2_accumulate L current_delta2 c) (pd2[c := 0])
        = for_each [0..<?out] (\<lambda>r. add_cell c (?g r)) (pd2[c := 0])"
  proof (rule for_each_cong)
    fix r t assume "r \<in> set [0..<?out]"
    then have r: "r < ?out" by simp
    then have "c * ?out + r < length (W L)"
      using assms(1,3) by (simp add: weight_dim_def cell_index_bound)
    moreover have "r < length current_delta2" using r assms(2) by simp
    moreover have "subscript L c r = c * ?out + r"
      using assms(6,3) r by (intro subscript_eq) simp_all
    ultimately show "bp2_accumulate L current_delta2 c r t = add_cell c (?g r) t"
      by (simp add: bp2_accumulate_add_cell)
  qed
  also have "\<dots> = Inr (pd2[c := foldl (\<lambda>s r. s + ?g r) 0 [0..<?out]])"
    using assms(5) by (simp add: accumulate_cell)
  finally have loop: "for_each [0..<?out] (bp2_accumulate L current_delta2 c) (pd2[c := 0])
        = Inr (pd2[c := foldl (\<lambda>s r. s + ?g r) 0 [0..<?out]])" .
  show ?thesis
    using assms(4,5) by (simp add: bp2_prev_delta2_def loop spec_prev_delta2_def)
qed

lemma back_propagation_2nd_eq:
  fixes L :: "('a::{zero,plus,times}, 'c::len) fully_connected_layer"
  assumes "layer_ok L" and "prev L = Some p"
    and "unat (out_size L) \<le> length current_delta2"
    and "unat (in_size L) \<le> length (node_output p 0)"
  shows "\<exists>wh bh.
     back_propagation_2nd L current_delta2 =
       and_then
         (node_back_propagation_2nd p
            (map (spec_prev_delta2 L current_delta2 p) [0..<unat (in_size L)]))
         (\<lambda>r. Inr (r, L\<lparr>Whessian := wh, bhessian := bh,
                          prev_delta2 := map (spec_prev_delta2 L current_delta2 p)
                                           [0..<unat (in_size L)]\<rparr>)) \<and>
     length wh = weight_dim L \<and> length bh = bias_dim L \<and>
     (\<forall>c<unat (in_size L). \<forall>r<unat (out_size L).
        wh ! (c * unat (out_size L) + r) =
          Whessian L ! (c * unat (out_size L) + r)
          + current_delta2 ! r * sqr (node_output p 0 ! c)) \<and>
     (\<forall>r<bias_dim L. bh ! r = bhessian L ! r + current_delta2 ! r)"
proof -
  let ?out = "unat (out_size L)" and ?in = "unat (in_size L)"
  let ?po = "node_output p 0"
  let ?g = "\<lambda>c r. current_delta2 ! r * sqr (?po ! c)"
  have lens: "length (W L) = weight_dim L" "length (Whessian L) = weight_dim L"
    "length (bhessian L) = bias_dim L" "length (prev_delta2 L) = ?in"
    using assms(1) by (simp_all add: layer_ok_def)
  have fits: "weight_dim L < 2 ^ LENGTH('c)" using assms(1) by (simp add: layer_ok_def)
  \<comment> \<open>the weight Hessian\<close>
  have wh_eq: "for_each [0..<?in] (\<lambda>c. for_each [0..<?out] (bp2_Whessian L current_delta2 ?po c))
                 (Whessian L)
        = for_each [0..<?in] (\<lambda>c. for_each [0..<?out] (\<lambda>r. add_cell (c * ?out + r) (?g c r)))
                 (Whessian L)"
  proof (rule for_each_cong)
    fix c t assume "c \<in> set [0..<?in]"
    then have c: "c < length ?po" and c': "c < ?in" using assms(4) by simp_all
    show "for_each [0..<?out] (bp2_Whessian L current_delta2 ?po c) t
          = for_each [0..<?out] (\<lambda>r. add_cell (c * ?out + r) (?g c r)) t"
    proof (rule for_each_cong)
      fix r u assume "r \<in> set [0..<?out]"
      then have "r < length current_delta2" and r: "r < ?out" using assms(3) by simp_all
      moreover have "subscript L c r = c * ?out + r"
        using fits c' r by (intro subscript_eq) simp_all
      ultimately show "bp2_Whessian L current_delta2 ?po c r u = add_cell (c * ?out + r) (?g c r) u"
        using c by (intro bp2_Whessian_add_cell)
    qed
  qed
  have "?in * ?out \<le> length (Whessian L)" using lens by (simp add: weight_dim_def)
  from add_rect[OF le0 order_refl this, of ?g] obtain wh where
    rect: "for_each [0..<?in] (\<lambda>c. for_each [0..<?out] (\<lambda>r. add_cell (c * ?out + r) (?g c r)))
                 (Whessian L) = Inr wh" and
    lenwh: "length wh = length (Whessian L)" and
    cells: "\<forall>c r. r < ?out \<longrightarrow> c * ?out + r < length (Whessian L) \<longrightarrow> wh ! (c * ?out + r) =
              (if c < ?in \<and> 0 \<le> r \<and> r < ?out then Whessian L ! (c * ?out + r) + ?g c r
               else Whessian L ! (c * ?out + r))"
    by (elim exE conjE)
  have wh: "for_each [0..<?in] (\<lambda>c. for_each [0..<?out] (bp2_Whessian L current_delta2 ?po c))
                 (Whessian L) = Inr wh"
    using wh_eq rect by (rule trans)
  have wh_cells: "\<forall>c<?in. \<forall>r<?out. wh ! (c * ?out + r) = Whessian L ! (c * ?out + r) + ?g c r"
  proof (intro allI impI)
    fix c r assume c: "c < ?in" and r: "r < ?out"
    then have "c * ?out + r < length (Whessian L)"
      using lens by (simp add: weight_dim_def cell_index_bound)
    with cells c r show "wh ! (c * ?out + r) = Whessian L ! (c * ?out + r) + ?g c r"
      by simp
  qed
  \<comment> \<open>the bias Hessian\<close>
  have "\<exists>bh. (if has_bias L
               then for_each [0..<?out] (bp2_bhessian current_delta2) (bhessian L)
               else Inr (bhessian L)) = Inr bh \<and>
             length bh = bias_dim L \<and>
             (\<forall>r<bias_dim L. bh ! r = bhessian L ! r + current_delta2 ! r)"
  proof (cases "has_bias L")
    case False
    then show ?thesis using lens by (simp add: bias_dim_def)
  next
    case True
    then have lenb: "length (bhessian L) = ?out" using lens by (simp add: bias_dim_def)
    have bh_eq: "for_each [0..<?out] (bp2_bhessian current_delta2) (bhessian L)
          = for_each [0..<?out] (\<lambda>r. add_cell (0 + r) (current_delta2 ! r)) (bhessian L)"
    proof (rule for_each_cong)
      fix r t assume "r \<in> set [0..<?out]"
      then have "r < length current_delta2" using assms(3) by simp
      then show "bp2_bhessian current_delta2 r t = add_cell (0 + r) (current_delta2 ! r) t"
        by (rule bp2_bhessian_add_cell)
    qed
    have "0 + ?out \<le> length (bhessian L)" using lenb by simp
    from add_cells[OF le0 this, of "\<lambda>r. current_delta2 ! r"] obtain bh where
      row: "for_each [0..<?out] (\<lambda>r. add_cell (0 + r) (current_delta2 ! r)) (bhessian L) = Inr bh" and
      lenbh: "length bh = length (bhessian L)" and
      bcells: "\<forall>k<length (bhessian L). bh ! k =
                 (if 0 + 0 \<le> k \<and> k < 0 + ?out then bhessian L ! k + current_delta2 ! (k - 0)
                  else bhessian L ! k)"
      by (elim exE conjE)
    have "for_each [0..<?out] (bp2_bhessian current_delta2) (bhessian L) = Inr bh"
      using bh_eq row by (rule trans)
    moreover have "length bh = bias_dim L" using lenbh lens by simp
    moreover have "\<forall>r<bias_dim L. bh ! r = bhessian L ! r + current_delta2 ! r"
      using bcells lenb True by (simp add: bias_dim_def)
    ultimately show ?thesis using True by simp
  qed
  then obtain bh where
    bh: "(if has_bias L
          then for_each [0..<?out] (bp2_bhessian current_delta2) (bhessian L)
          else Inr (bhessian L)) = Inr bh" and
    lenbh: "length bh = bias_dim L" and
    bh_cells: "\<forall>r<bias_dim L. bh ! r = bhessian L ! r + current_delta2 ! r"
    by (elim exE conjE)
  \<comment> \<open>the propagated delta\<close>
  have "for_each [0..<?in] (bp2_prev_delta2 L current_delta2 ?po (node_df p)) (prev_delta2 L)
        = Inr (map (spec_prev_delta2 L current_delta2 p) [0..<?in] @ drop ?in (prev_delta2 L))"
    using lens assms(3,4) fits by (intro assign_cells) (simp_all add: bp2_prev_delta2_eq)
  then have pd2: "for_each [0..<?in] (bp2_prev_delta2 L current_delta2 ?po (node_df p))
                    (prev_delta2 L)
        = Inr (map (spec_prev_delta2 L current_delta2 p) [0..<?in])"
    using lens by simp
  have "back_propagation_2nd L current_delta2 =
       and_then
         (node_back_propagation_2nd p (map (spec_prev_delta2 L current_delta2 p) [0..<?in]))
         (\<lambda>r. Inr (r, L\<lparr>Whessian := wh, bhessian := bh,
                          prev_delta2 := map (spec_prev_delta2 L current_delta2 p) [0..<?in]\<rparr>))"
    using assms(2) unfolding back_propagation_2nd_def by (simp add: wh bh pd2)
  moreover have "length wh = weight_dim L" using lenwh lens by simp
  ultimately show ?thesis using lenbh wh_cells bh_cells by blast
qed

section \<open>Vectors of the wrong length\<close>

lemma rd_take: "i < n \<Longrightarrow> n \<le> length v \<Longrightarrow> rd (take n v) i = rd v i"
  by (simp add: rd_def)

lemma partitions_block:
  "partitions lo hi blocks \<Longrightarrow> (bg, en) \<in> set blocks \<Longrightarrow> bg \<le> en \<and> en \<le> hi"
  by (induction blocks arbitrary: lo) auto

lemma fp_pre_activation_take:
  assumes "unat (in_size L) \<le> length inp"
  shows "fp_pre_activation L (take (unat (in_size L)) inp) = fp_pre_activation L inp"
proof (intro ext)
  fix i av
  have "for_each [0..<unat (in_size L)] (fp_accumulate L (take (unat (in_size L)) inp) i)
        = for_each [0..<unat (in_size L)] (fp_accumulate L inp i)"
  proof
    fix t
    show "for_each [0..<unat (in_size L)] (fp_accumulate L (take (unat (in_size L)) inp) i) t
          = for_each [0..<unat (in_size L)] (fp_accumulate L inp i) t"
    proof (rule for_each_cong)
      fix c u assume "c \<in> set [0..<unat (in_size L)]"
      then have "rd (take (unat (in_size L)) inp) c = rd inp c"
        using assms by (simp add: rd_take)
      then show "fp_accumulate L (take (unat (in_size L)) inp) i c u = fp_accumulate L inp i c u"
        by (simp add: fp_accumulate_def)
    qed
  qed
  then show "fp_pre_activation L (take (unat (in_size L)) inp) i av = fp_pre_activation L inp i av"
    by (simp add: fp_pre_activation_def)
qed

lemma forward_propagation_take:
  assumes "unat (in_size L) \<le> length inp"
  shows "forward_propagation L inp index
         = forward_propagation L (take (unat (in_size L)) inp) index"
  by (simp add: forward_propagation_def fp_pre_activation_take[OF assms])

lemma muladd_take:
  assumes "soff + len \<le> n" and "n \<le> length src"
  shows "muladd (take n src) soff c len dst doff = muladd src soff c len dst doff"
  unfolding muladd_def
proof (rule for_each_cong)
  fix i t assume "i \<in> set [0..<len]"
  then have "rd (take n src) (soff + i) = rd src (soff + i)"
    using assms by (simp add: rd_take)
  then show "and_then (rd (take n src) (soff + i))
               (\<lambda>x. and_then (rd t (doff + i)) (\<lambda>y. wr t (doff + i) (y + x * c)))
             = and_then (rd src (soff + i))
               (\<lambda>x. and_then (rd t (doff + i)) (\<lambda>y. wr t (doff + i) (y + x * c)))"
    by simp
qed

lemma bp_prev_delta_take:
  assumes "unat (out_size L) \<le> length curr_delta"
  shows "bp_prev_delta L (take (unat (out_size L)) curr_delta) = bp_prev_delta L curr_delta"
proof (intro ext)
  fix prev_out prev_df c pd
  have "range_of (take (unat (out_size L)) curr_delta) 0 (unat (out_size L))
        = range_of curr_delta 0 (unat (out_size L))"
    using assms by (simp add: range_of_def)
  then show "bp_prev_delta L (take (unat (out_size L)) curr_delta) prev_out prev_df c pd
             = bp_prev_delta L curr_delta prev_out prev_df c pd"
    by (simp add: bp_prev_delta_def)
qed

lemma bp_accumulate_take:
  assumes "unat (out_size L) \<le> length curr_delta" and "bg \<le> en" and "en \<le> unat (out_size L)"
  shows "bp_accumulate L (take (unat (out_size L)) curr_delta) prev_out (bg, en) acc
         = bp_accumulate L curr_delta prev_out (bg, en) acc"
proof -
  let ?d = "take (unat (out_size L)) curr_delta"
  have fits: "bg + (en - bg) \<le> unat (out_size L)" using assms(2,3) by simp
  have cols: "(\<lambda>c dw. and_then (rd prev_out c)
                 (\<lambda>x. muladd ?d bg x (en - bg) dw (subscript L c bg)))
        = (\<lambda>c dw. and_then (rd prev_out c)
                 (\<lambda>x. muladd curr_delta bg x (en - bg) dw (subscript L c bg)))"
    by (simp add: muladd_take[OF fits assms(1)])
  have bias: "for_each [bg..<en]
                (\<lambda>i dbias. and_then (rd ?d i)
                   (\<lambda>x. and_then (rd dbias i) (\<lambda>y. wr dbias i (y + x))))
        = for_each [bg..<en]
                (\<lambda>i dbias. and_then (rd curr_delta i)
                   (\<lambda>x. and_then (rd dbias i) (\<lambda>y. wr dbias i (y + x))))"
  proof
    fix t
    show "for_each [bg..<en]
                (\<lambda>i dbias. and_then (rd ?d i)
                   (\<lambda>x. and_then (rd dbias i) (\<lambda>y. wr dbias i (y + x)))) t
        = for_each [bg..<en]
                (\<lambda>i dbias. and_then (rd curr_delta i)
                   (\<lambda>x. and_then (rd dbias i) (\<lambda>y. wr dbias i (y + x)))) t"
    proof (rule for_each_cong)
      fix i u assume "i \<in> set [bg..<en]"
      then have "rd ?d i = rd curr_delta i" using assms(1,3) by (simp add: rd_take)
      then show "and_then (rd ?d i) (\<lambda>x. and_then (rd u i) (\<lambda>y. wr u i (y + x)))
                 = and_then (rd curr_delta i) (\<lambda>x. and_then (rd u i) (\<lambda>y. wr u i (y + x)))"
        by simp
    qed
  qed
  show ?thesis
    by (cases acc; cases "has_bias L") (simp_all add: bp_accumulate_def cols bias)
qed

lemma back_propagation_take:
  assumes "partitions 0 (unat (out_size L)) blocks"
    and "unat (out_size L) \<le> length curr_delta"
  shows "back_propagation L blocks curr_delta index
         = back_propagation L blocks (take (unat (out_size L)) curr_delta) index"
proof -
  let ?d = "take (unat (out_size L)) curr_delta"
  have "for_each blocks (bp_accumulate L ?d prev_out) = for_each blocks (bp_accumulate L curr_delta prev_out)"
    for prev_out
  proof
    fix t
    show "for_each blocks (bp_accumulate L ?d prev_out) t
          = for_each blocks (bp_accumulate L curr_delta prev_out) t"
    proof (rule for_each_cong)
      fix r u assume r: "r \<in> set blocks"
      obtain bg en where "r = (bg, en)" by (cases r)
      with r assms(1) have "bg \<le> en \<and> en \<le> unat (out_size L)"
        by (auto dest: partitions_block)
      then show "bp_accumulate L ?d prev_out r u = bp_accumulate L curr_delta prev_out r u"
        using assms(2) \<open>r = (bg, en)\<close> by (simp add: bp_accumulate_take)
    qed
  qed
  then show ?thesis
    by (cases "prev L")
      (simp_all add: back_propagation_def for_blocks_def Let_def bp_prev_delta_take[OF assms(2)])
qed

lemma back_propagation_2nd_take:
  assumes "unat (out_size L) \<le> length current_delta2"
  shows "back_propagation_2nd L current_delta2
         = back_propagation_2nd L (take (unat (out_size L)) current_delta2)"
proof -
  let ?out = "unat (out_size L)"
  let ?d = "take ?out current_delta2"
  have rd: "rd ?d r = rd current_delta2 r" if "r \<in> set [0..<?out]" for r
    using that assms by (simp add: rd_take)
  have wh: "for_each [0..<?out] (bp2_Whessian L ?d prev_out c)
            = for_each [0..<?out] (bp2_Whessian L current_delta2 prev_out c)" for prev_out c
  proof
    fix t
    show "for_each [0..<?out] (bp2_Whessian L ?d prev_out c) t
            = for_each [0..<?out] (bp2_Whessian L current_delta2 prev_out c) t"
      by (rule for_each_cong) (simp add: bp2_Whessian_def rd)
  qed
  have bh: "for_each [0..<?out] (bp2_bhessian ?d) = for_each [0..<?out] (bp2_bhessian current_delta2)"
  proof
    fix t
    show "for_each [0..<?out] (bp2_bhessian ?d) t = for_each [0..<?out] (bp2_bhessian current_delta2) t"
      by (rule for_each_cong) (simp add: bp2_bhessian_def rd)
  qed
  have acc: "for_each [0..<?out] (bp2_accumulate L ?d c)
             = for_each [0..<?out] (bp2_accumulate L current_delta2 c)" for c
  proof
    fix t
    show "for_each [0..<?out] (bp2_accumulate L ?d c) t
             = for_each [0..<?out] (bp2_accumulate L current_delta2 c) t"
      by (rule for_each_cong) (simp add: bp2_accumulate_def rd)
  qed
  have pd: "bp2_prev_delta2 L ?d = bp2_prev_delta2 L current_delta2"
    by (intro ext) (simp add: bp2_prev_delta2_def acc)
  show ?thesis
    by (cases "prev L"; cases "has_bias L")
      (simp_all add: back_propagation_2nd_def Let_def wh bh pd)
qed

lemma for_each_first_fault:
  assumes "0 < n" and "body 0 s = Inl e"
  shows "for_each [0..<n] body s = Inl e"
proof -
  have "[0..<n] = 0 # [1..<n]" using assms(1) by (simp add: upt_conv_Cons)
  then show ?thesis using assms(2) by simp
qed

lemma fp_accumulate_short_input:
  fixes L :: "('a::{zero,plus,times}, 'c::len) fully_connected_layer"
  assumes "length (W L) = weight_dim L" and "i < unat (out_size L)" and "i < length av"
    and "length inp < unat (in_size L)" and "weight_dim L < 2 ^ LENGTH('c)"
  shows "for_each [0..<unat (in_size L)] (fp_accumulate L inp i) av = Inl OutOfRange"
proof -
  let ?out = "unat (out_size L)" and ?k = "length inp"
  let ?g = "\<lambda>c. W L ! (c * ?out + i) * inp ! c"
  have "[0..<?k + (unat (in_size L) - ?k)] = [0..<?k] @ [?k..<?k + (unat (in_size L) - ?k)]"
    by (rule upt_add_eq_append) simp
  moreover have "[?k..<unat (in_size L)] = ?k # [Suc ?k..<unat (in_size L)]"
    using assms(4) by (rule upt_conv_Cons)
  ultimately have split: "[0..<unat (in_size L)] = [0..<?k] @ ?k # [Suc ?k..<unat (in_size L)]"
    using assms(4) by simp
  have "for_each [0..<?k] (fp_accumulate L inp i) av = for_each [0..<?k] (\<lambda>c. add_cell i (?g c)) av"
  proof (rule for_each_cong)
    fix c t assume "c \<in> set [0..<?k]"
    then have c: "c < unat (in_size L)" "c < length inp" using assms(4) by simp_all
    then have "c * ?out + i < length (W L)"
      using assms(1,2) by (simp add: weight_dim_def cell_index_bound)
    moreover have "subscript L c i = c * ?out + i"
      using assms(5) c(1) assms(2) by (intro subscript_eq) simp_all
    ultimately show "fp_accumulate L inp i c t = add_cell i (?g c) t"
      using c by (simp add: fp_accumulate_add_cell)
  qed
  then have before: "for_each [0..<?k] (fp_accumulate L inp i) av
                     = Inr (av[i := foldl (\<lambda>s c. s + ?g c) (av ! i) [0..<?k]])"
    using assms(3) by (simp add: accumulate_cell)
  have "?k * ?out + i < length (W L)"
    using assms(1,2,4) by (simp add: weight_dim_def cell_index_bound)
  moreover have "subscript L ?k i = ?k * ?out + i"
    using assms(5,4,2) by (intro subscript_eq) simp_all
  ultimately have "fp_accumulate L inp i ?k t = Inl OutOfRange" for t
    by (simp add: fp_accumulate_def)
  then show ?thesis by (simp add: split for_each_append before)
qed

lemma forward_propagation_short_input:
  fixes L :: "('a::{zero,plus,times}, 'c::len) fully_connected_layer"
  assumes "layer_ok L" and "index < length (worker_storage L)"
    and "length inp < unat (in_size L)" and "0 < unat (out_size L)"
  shows "forward_propagation L inp index = Inl OutOfRange"
proof -
  let ?ws = "worker_storage L ! index"
  have ws: "storage_ok L ?ws" using assms(1,2) by (rule storage_ok_nth)
  have lenW: "length (W L) = weight_dim L" using assms(1) by (simp add: layer_ok_def)
  have fits: "weight_dim L < 2 ^ LENGTH('c)" using assms(1) by (simp add: layer_ok_def)
  have lena: "0 < length (ws_a ?ws)" using ws assms(4) by (simp add: storage_ok_def)
  then have "for_each [0..<unat (in_size L)] (fp_accumulate L inp 0) ((ws_a ?ws)[0 := 0])
             = Inl OutOfRange"
    using lenW assms(3,4) fits by (intro fp_accumulate_short_input) simp_all
  then have "fp_pre_activation L inp 0 (ws_a ?ws) = Inl OutOfRange"
    using lena by (simp add: fp_pre_activation_def)
  then have "for_i (unat (out_size L)) (fp_pre_activation L inp) (ws_a ?ws) = Inl OutOfRange"
    unfolding for_i_def using assms(4) by (intro for_each_first_fault)
  then show ?thesis
    using assms(2) by (simp add: forward_propagation_def get_worker_storage_in_range)
qed

lemma back_propagation_short_delta:
  assumes "index < length (worker_storage L)" and "prev L \<noteq> None"
    and "length curr_delta < unat (out_size L)" and "0 < unat (in_size L)"
  shows "back_propagation L blocks curr_delta index = Inl OutOfRange"
proof -
  from assms(2) obtain p where p: "prev L = Some p" by auto
  have "bp_prev_delta L curr_delta prev_out prev_df 0 pd = Inl OutOfRange" for prev_out prev_df pd
    using assms(3) by (simp add: bp_prev_delta_def range_of_def)
  then have "for_each [0..<unat (in_size L)] (bp_prev_delta L curr_delta prev_out prev_df) pd
             = Inl OutOfRange" for prev_out prev_df pd
    using assms(4) by (intro for_each_first_fault)
  then show ?thesis
    using assms(1) p
    by (simp add: back_propagation_def get_worker_storage_in_range Let_def)
qed

section \<open>What a pass that returns has written\<close>

lemma and_then_eq_Inr: "and_then m f = Inr y \<longleftrightarrow> (\<exists>x. m = Inr x \<and> f x = Inr y)"
  by (cases m) simp_all

lemma forward_propagation_Inr:
  assumes "forward_propagation L inp index = Inr (r, L')"
  shows "index < length (worker_storage L) \<and>
         (\<exists>av out. L' = set_worker_storage L index
                          ((worker_storage L ! index)\<lparr>ws_a := av, ws_output := out\<rparr>))"
proof -
  from assms obtain ws av out where
    ws: "get_worker_storage L index = Inr ws" and
    rest: "(case next L of
              None \<Rightarrow> Inr (out, set_worker_storage L index (ws\<lparr>ws_a := av, ws_output := out\<rparr>))
            | Some n \<Rightarrow> and_then (node_forward_propagation n out index)
                (\<lambda>r. Inr (r, set_worker_storage L index (ws\<lparr>ws_a := av, ws_output := out\<rparr>))))
           = Inr (r, L')"
    unfolding forward_propagation_def and_then_eq_Inr Let_def by blast
  from ws have index: "index < length (worker_storage L)" and "ws = worker_storage L ! index"
    by (auto simp: get_worker_storage_def rd_def split: if_splits)
  moreover from rest have "L' = set_worker_storage L index (ws\<lparr>ws_a := av, ws_output := out\<rparr>)"
    by (cases "next L") (auto simp: and_then_eq_Inr)
  ultimately show ?thesis by blast
qed

lemma bp_accumulate_no_bias:
  assumes "\<not> has_bias L"
    and "for_each blocks (bp_accumulate L curr_delta prev_out) (dw, dbias) = Inr (dw', dbias')"
  shows "dbias' = dbias"
  using assms(2)
proof (induction blocks arbitrary: dw)
  case Nil
  then show ?case by simp
next
  case (Cons r rest)
  from Cons.prems obtain acc where
    first: "bp_accumulate L curr_delta prev_out r (dw, dbias) = Inr acc" and
    loop: "for_each rest (bp_accumulate L curr_delta prev_out) acc = Inr (dw', dbias')"
    by (auto simp: and_then_eq_Inr)
  from first assms(1) have "snd acc = dbias"
    by (cases r) (auto simp: bp_accumulate_def and_then_eq_Inr)
  with loop Cons.IH[of "fst acc"] show ?case by (cases acc) simp
qed

lemma back_propagation_Inr:
  assumes "back_propagation L blocks curr_delta index = Inr (r, L')"
  shows "index < length (worker_storage L) \<and>
         (\<exists>p pd dw dbias.
            prev L = Some p \<and>
            for_each blocks (bp_accumulate L curr_delta (node_output p index))
              (ws_dW (worker_storage L ! index), ws_db (worker_storage L ! index))
              = Inr (dw, dbias) \<and>
            L' = set_worker_storage L index
                   ((worker_storage L ! index)\<lparr>ws_prev_delta := pd, ws_dW := dw, ws_db := dbias\<rparr>))"
proof -
  from assms obtain ws where
    ws: "get_worker_storage L index = Inr ws" and
    rest: "(case prev L of
       None \<Rightarrow> Inl NullDereference
     | Some p \<Rightarrow>
         let prev_out = node_output p index; prev_df = node_df p in
         and_then (for_each [0..<unat (in_size L)]
                     (bp_prev_delta L curr_delta prev_out prev_df) (ws_prev_delta ws)) (\<lambda>pd.
         and_then (for_blocks blocks (bp_accumulate L curr_delta prev_out)
                     (ws_dW ws, ws_db ws)) (\<lambda>(dw, dbias).
         let L' = set_worker_storage L index
                    (ws\<lparr>ws_prev_delta := pd, ws_dW := dw, ws_db := dbias\<rparr>) in
         and_then (node_back_propagation p pd index) (\<lambda>r. Inr (r, L'))))) = Inr (r, L')"
    unfolding back_propagation_def and_then_eq_Inr by blast
  from ws have index: "index < length (worker_storage L)" and w: "ws = worker_storage L ! index"
    by (auto simp: get_worker_storage_def rd_def split: if_splits)
  from rest obtain p where p: "prev L = Some p" by (cases "prev L") auto
  from rest p obtain pd dw dbias where
    "for_each blocks (bp_accumulate L curr_delta (node_output p index)) (ws_dW ws, ws_db ws)
       = Inr (dw, dbias)"
    "L' = set_worker_storage L index (ws\<lparr>ws_prev_delta := pd, ws_dW := dw, ws_db := dbias\<rparr>)"
    by (auto simp: and_then_eq_Inr Let_def for_blocks_def)
  with index w p show ?thesis by blast
qed

lemma back_propagation_2nd_Inr:
  assumes "back_propagation_2nd L current_delta2 = Inr (r, L')"
  shows "\<exists>wh bh pd2.
           (if has_bias L
            then for_each [0..<unat (out_size L)] (bp2_bhessian current_delta2) (bhessian L)
            else Inr (bhessian L)) = Inr bh \<and>
           L' = L\<lparr>Whessian := wh, bhessian := bh, prev_delta2 := pd2\<rparr>"
proof -
  from assms obtain p where p: "prev L = Some p"
    by (cases "prev L") (auto simp: back_propagation_2nd_def)
  from assms p obtain wh bh pd2 where
    "(if has_bias L
      then for_each [0..<unat (out_size L)] (bp2_bhessian current_delta2) (bhessian L)
      else Inr (bhessian L)) = Inr bh"
    "L' = L\<lparr>Whessian := wh, bhessian := bh, prev_delta2 := pd2\<rparr>"
    by (auto simp: back_propagation_2nd_def and_then_eq_Inr Let_def)
  then show ?thesis by blast
qed

lemma bias_buffers_set_worker_storage:
  assumes "index < length (worker_storage L)"
    and "ws_db ws = ws_db (worker_storage L ! index)"
  shows "bias_buffers (set_worker_storage L index ws) = bias_buffers L"
proof -
  have "map ws_db ((worker_storage L)[index := ws]) = map ws_db (worker_storage L)"
    using assms by (simp add: map_update list_update_same_conv)
  then show ?thesis by (simp add: bias_buffers_def set_worker_storage_def)
qed

lemma layer_ok_no_bias_buffers:
  assumes "layer_ok L" and "\<not> has_bias L"
  shows "bias_buffers L = ([], [], replicate (length (worker_storage L)) [])"
proof -
  have "\<forall>ws\<in>set (worker_storage L). ws_db ws = []"
    using assms by (auto simp: layer_ok_def list_all_iff storage_ok_def bias_dim_def)
  then have "map ws_db (worker_storage L) = replicate (length (worker_storage L)) []"
    by (simp add: map_replicate_const[symmetric] cong: map_cong)
  then show ?thesis using assms by (simp add: bias_buffers_def layer_ok_def bias_dim_def)
qed

section \<open>The second-order pass and the upstream output\<close>

lemma back_propagation_2nd_agree:
  assumes "node_output p' 0 = node_output p 0" and "node_df p' = node_df p"
    and "node_back_propagation_2nd p' = node_back_propagation_2nd p"
  shows "back_propagation_2nd (L\<lparr>prev := Some p', worker_storage := wss\<rparr>) current_delta2 =
         map_sum id (map_prod id (\<lambda>M. M\<lparr>prev := Some p', worker_storage := wss\<rparr>))
           (back_propagation_2nd (L\<lparr>prev := Some p\<rparr>) current_delta2)"
proof -
  let ?L1 = "L\<lparr>prev := Some p', worker_storage := wss\<rparr>" and ?L2 = "L\<lparr>prev := Some p\<rparr>"
  have wh: "bp2_Whessian ?L1 = bp2_Whessian ?L2"
    by (intro ext) (simp add: bp2_Whessian_def subscript_def)
  have acc: "bp2_accumulate ?L1 = bp2_accumulate ?L2"
    by (intro ext) (simp add: bp2_accumulate_def subscript_def)
  have pd: "bp2_prev_delta2 ?L1 = bp2_prev_delta2 ?L2"
    by (intro ext) (simp add: bp2_prev_delta2_def acc)
  let ?wh = "for_each [0..<unat (in_size L)]
               (\<lambda>c. for_each [0..<unat (out_size L)]
                       (bp2_Whessian ?L2 current_delta2 (node_output p 0) c)) (Whessian L)"
  let ?bh = "if has_bias L
             then for_each [0..<unat (out_size L)] (bp2_bhessian current_delta2) (bhessian L)
             else Inr (bhessian L)"
  let ?pd = "for_each [0..<unat (in_size L)]
               (bp2_prev_delta2 ?L2 current_delta2 (node_output p 0) (node_df p)) (prev_delta2 L)"
  have lhs: "back_propagation_2nd ?L1 current_delta2 =
     and_then ?wh (\<lambda>wh. and_then ?bh (\<lambda>bh. and_then ?pd (\<lambda>pd2.
       and_then (node_back_propagation_2nd p pd2)
         (\<lambda>r. Inr (r, ?L1\<lparr>Whessian := wh, bhessian := bh, prev_delta2 := pd2\<rparr>)))))"
    by (cases "has_bias L") (simp_all add: back_propagation_2nd_def Let_def assms wh pd)
  have rhs: "back_propagation_2nd ?L2 current_delta2 =
     and_then ?wh (\<lambda>wh. and_then ?bh (\<lambda>bh. and_then ?pd (\<lambda>pd2.
       and_then (node_back_propagation_2nd p pd2)
         (\<lambda>r. Inr (r, ?L2\<lparr>Whessian := wh, bhessian := bh, prev_delta2 := pd2\<rparr>)))))"
    by (cases "has_bias L") (simp_all add: back_propagation_2nd_def Let_def)
  show ?thesis
    unfolding lhs rhs
    by (cases ?wh; cases ?bh; cases ?pd)
       (auto simp: and_then_def split: sum.splits)
qed

lemma second_order_outcome_agree:
  assumes "node_output p' 0 = node_output p 0" and "node_df p' = node_df p"
    and "node_back_propagation_2nd p' = node_back_propagation_2nd p"
  shows "second_order_outcome (L\<lparr>prev := Some p', worker_storage := wss\<rparr>) current_delta2
         = second_order_outcome (L\<lparr>prev := Some p\<rparr>) current_delta2"
  unfolding second_order_outcome_def back_propagation_2nd_agree[OF assms]
  by (cases "back_propagation_2nd (L\<lparr>prev := Some p\<rparr>) current_delta2") auto

lemma second_order_outcome_storage:
  "second_order_outcome (L\<lparr>worker_storage := wss\<rparr>) current_delta2
   = second_order_outcome L current_delta2"
proof (cases "prev L")
  case None
  then show ?thesis by (simp add: second_order_outcome_def back_propagation_2nd_def)
next
  case (Some q)
  then have "L\<lparr>prev := Some q\<rparr> = L" by (cases L) simp
  with second_order_outcome_agree[where p' = q and p = q and L = L and wss = wss] show ?thesis by simp
qed

section \<open>The size of the layer\<close>

lemma connection_size_of_nat:
  "(connection_size L :: 's::len word) =
     of_nat (unat (in_size L) * unat (out_size L) + (if has_bias L then unat (out_size L) else 0))"
  by (simp add: connection_size_def)

section \<open>The example\<close>

lemmas model_defs = forward_propagation_def get_worker_storage_def set_worker_storage_def
  for_i_def fp_pre_activation_def fp_accumulate_def fp_activate_def rd_def wr_def
  example_layer_def example_storage_def example_input_def
  back_propagation_def bp_prev_delta_def bp_accumulate_def for_blocks_def muladd_def
  range_of_def dot_def sqr_def back_propagation_2nd_def bp2_Whessian_def bp2_bhessian_def
  bp2_accumulate_def bp2_prev_delta2_def subscript_def upt_conv_Cons

lemma example_layer_ok: "layer_ok example_layer"
  by (simp add: layer_ok_def storage_ok_def weight_dim_def bias_dim_def
      example_layer_def example_storage_def)

lemma example_no_bias_ok: "layer_ok example_no_bias"
  by (simp add: layer_ok_def storage_ok_def weight_dim_def bias_dim_def
      example_no_bias_def example_layer_def example_storage_def)

lemma example_detached_ok: "layer_ok example_detached"
  by (simp add: layer_ok_def storage_ok_def weight_dim_def bias_dim_def
      example_detached_def example_layer_def example_storage_def)

lemma example_between_ok: "layer_ok example_between"
  by (simp add: layer_ok_def storage_ok_def weight_dim_def bias_dim_def
      example_between_def example_layer_def example_storage_def)

lemma singleton_by_nth: "length v = 1 \<Longrightarrow> v ! 0 = x \<Longrightarrow> v = [x]"
  by (cases v) simp_all

lemma pair_by_nth: "length v = 2 \<Longrightarrow> v ! 0 = x \<Longrightarrow> v ! 1 = y \<Longrightarrow> v = [x, y]"
proof -
  assume len: "length v = 2" and "v ! 0 = x" and "v ! 1 = y"
  from len obtain p q where "v = [p, q]"
    by (auto simp: length_Suc_conv eval_nat_numeral)
  then show ?thesis using \<open>v ! 0 = x\<close> \<open>v ! 1 = y\<close> by simp
qed

section \<open>The claims\<close>

text \<open>
  Claim C1. For a layer that satisfies the invariants, a valid worker id and an input
  of length \<open>in_size\<close>, \<open>forward_propagation\<close> leaves in the worker's buffer \<open>a\<close> the
  pre-activations \<open>a[i] = \<Sum>c. W[c * out_size + i] * input[c]\<close>, plus \<open>b[i]\<close> with a bias,
  and in \<open>out\<close> the values \<open>out[i] = h.f(a, i)\<close>, for every \<open>i < out_size\<close>; it returns
  \<open>out\<close>, or what the downstream node makes of \<open>out\<close> under the same worker id. The
  sum is the one the loop builds, from \<open>0\<close> and in the order of \<open>c\<close>
  (\<open>spec_weighted_sum\<close>). The witness is the worked example: the output \<open>[-0.9]\<close>.
\<close>

theorem forward_propagation_computes:
  assumes "layer_ok L" and "index < length (worker_storage L)"
    and "length inp = unat (in_size L)"
  shows "\<exists>av out.
     length av = unat (out_size L) \<and> length out = unat (out_size L) \<and>
     (\<forall>i<unat (out_size L).
        av ! i = (if has_bias L then spec_weighted_sum L inp i + b L ! i
                  else spec_weighted_sum L inp i) \<and>
        out ! i = h_f L av i) \<and>
     forward_propagation L inp index =
       (case next L of
          None \<Rightarrow>
            Inr (out, set_worker_storage L index
                        ((worker_storage L ! index)\<lparr>ws_a := av, ws_output := out\<rparr>))
        | Some n \<Rightarrow>
            and_then (node_forward_propagation n out index)
              (\<lambda>r. Inr (r, set_worker_storage L index
                               ((worker_storage L ! index)\<lparr>ws_a := av, ws_output := out\<rparr>))))"
proof -
  have "length (spec_a L inp) = unat (out_size L)" by (simp add: spec_a_def)
  moreover have "length (spec_out L inp) = unat (out_size L)" by (simp add: spec_out_def)
  moreover have "\<forall>i<unat (out_size L).
        spec_a L inp ! i = (if has_bias L then spec_weighted_sum L inp i + b L ! i
                  else spec_weighted_sum L inp i) \<and>
        spec_out L inp ! i = h_f L (spec_a L inp) i"
    by (simp add: spec_a_def spec_out_def spec_pre_activation_def)
  moreover have "forward_propagation L inp index =
       (case next L of
          None \<Rightarrow>
            Inr (spec_out L inp, set_worker_storage L index
                        ((worker_storage L ! index)\<lparr>ws_a := spec_a L inp, ws_output := spec_out L inp\<rparr>))
        | Some n \<Rightarrow>
            and_then (node_forward_propagation n (spec_out L inp) index)
              (\<lambda>r. Inr (r, set_worker_storage L index
                               ((worker_storage L ! index)\<lparr>ws_a := spec_a L inp, ws_output := spec_out L inp\<rparr>))))"
    using forward_propagation_eq[OF assms(1,2), of inp] assms(3) by (simp add: Let_def)
  ultimately show ?thesis by blast
qed

theorem forward_propagation_computes_witness:
  "layer_ok example_layer \<and> 0 < length (worker_storage example_layer) \<and>
   length [2, 4 :: real] = unat (in_size example_layer) \<and>
   forward_propagation example_layer [2, 4] 0 =
     Inr ([- (9 / 10)],
          example_layer\<lparr>worker_storage :=
            [example_storage\<lparr>ws_a := [- (9 / 10)], ws_output := [- (9 / 10)]\<rparr>,
             example_storage]\<rparr>)"
proof -
  have index: "0 < length (worker_storage example_layer)"
    and len: "length [2, 4 :: real] = unat (in_size example_layer)"
    by (simp_all add: example_layer_def)
  from forward_propagation_computes[OF example_layer_ok index len]
  obtain av out where
    lens: "length av = 1" "length out = 1" and
    av: "av ! 0 = spec_weighted_sum example_layer [2, 4] 0 + 1 / 10" and
    out: "out ! 0 = av ! 0" and
    run: "forward_propagation example_layer [2, 4] 0 =
            Inr (out, set_worker_storage example_layer 0
                   ((worker_storage example_layer ! 0)\<lparr>ws_a := av, ws_output := out\<rparr>))"
    by (auto simp: example_layer_def)
  have "spec_weighted_sum example_layer [2, 4] 0 = - 1"
    by (simp add: spec_weighted_sum_def example_layer_def upt_conv_Cons)
  then have "av = [- (9 / 10)]" using lens av by (intro singleton_by_nth) simp_all
  moreover from this have "out = [- (9 / 10)]" using lens out by (intro singleton_by_nth) simp_all
  ultimately show ?thesis
    using run example_layer_ok index len
    by (simp add: set_worker_storage_def example_layer_def)
qed

text \<open>
  Claim C2. For a layer that satisfies the invariants, with an upstream node \<open>p\<close>, a
  delta of length \<open>out_size\<close> and an upstream output of length \<open>in_size\<close> cached for the
  worker, \<open>back_propagation\<close> stores in the worker's \<open>prev_delta\<close>, for every input
  \<open>c\<close>, the value \<open>dot(curr_delta, W[c * out_size .. c * out_size + out_size))\<close> times
  the upstream activation's \<open>df\<close> at the upstream output \<open>c\<close>, calls the backward pass
  of the upstream node with that vector and the same worker id, and returns its result.
\<close>

theorem back_propagation_relays_delta:
  assumes "layer_ok L" and "index < length (worker_storage L)" and "prev L = Some p"
    and "partitions 0 (unat (out_size L)) blocks"
    and "length curr_delta = unat (out_size L)"
    and "length (node_output p index) = unat (in_size L)"
  shows "\<exists>pd L'.
     length pd = unat (in_size L) \<and>
     (\<forall>c<unat (in_size L).
        pd ! c = dot curr_delta (take (unat (out_size L)) (drop (c * unat (out_size L)) (W L)))
                 * node_df p (node_output p index ! c)) \<and>
     ws_prev_delta (worker_storage L' ! index) = pd \<and>
     back_propagation L blocks curr_delta index =
       and_then (node_back_propagation p pd index) (\<lambda>r. Inr (r, L'))"
proof -
  let ?pd = "map (spec_prev_delta L curr_delta p index) [0..<unat (in_size L)]"
  from back_propagation_eq[OF assms(1-4), of curr_delta] assms(5,6)
  obtain dw dbias where
    run: "back_propagation L blocks curr_delta index =
       and_then (node_back_propagation p ?pd index)
         (\<lambda>r. Inr (r, set_worker_storage L index
            ((worker_storage L ! index)\<lparr>ws_prev_delta := ?pd, ws_dW := dw, ws_db := dbias\<rparr>)))"
    by auto
  let ?L' = "set_worker_storage L index
            ((worker_storage L ! index)\<lparr>ws_prev_delta := ?pd, ws_dW := dw, ws_db := dbias\<rparr>)"
  have "length ?pd = unat (in_size L)" by simp
  moreover have "\<forall>c<unat (in_size L).
        ?pd ! c = dot curr_delta (take (unat (out_size L)) (drop (c * unat (out_size L)) (W L)))
                 * node_df p (node_output p index ! c)"
    using assms(5) by (simp add: spec_prev_delta_def)
  moreover have "ws_prev_delta (worker_storage ?L' ! index) = ?pd"
    using assms(2) by (simp add: set_worker_storage_def)
  ultimately show ?thesis using run by blast
qed

theorem back_propagation_relays_delta_witness:
  "layer_ok example_layer \<and> 0 < length (worker_storage example_layer) \<and>
   prev example_layer = Some example_input \<and>
   partitions 0 (unat (out_size example_layer)) [(0, 1)] \<and>
   length [3 :: real] = unat (out_size example_layer) \<and>
   length (node_output example_input 0) = unat (in_size example_layer) \<and>
   (\<exists>L'. back_propagation example_layer [(0, 1)] [3] 0 = Inr ([3 / 2, - (3 / 2)], L') \<and>
         ws_prev_delta (worker_storage L' ! 0) = [3 / 2, - (3 / 2)])"
proof -
  have h: "0 < length (worker_storage example_layer)"
    "prev example_layer = Some example_input"
    "partitions 0 (unat (out_size example_layer)) [(0, 1)]"
    "length [3 :: real] = unat (out_size example_layer)"
    "length (node_output example_input 0) = unat (in_size example_layer)"
    by (simp_all add: example_layer_def example_input_def)
  from back_propagation_relays_delta[OF example_layer_ok h]
  obtain pd L' where
    len: "length pd = 2" and
    cells: "\<forall>c<2. pd ! c = dot [3] (take 1 (drop c (W example_layer)))
                 * node_df example_input (node_output example_input 0 ! c)" and
    stored: "ws_prev_delta (worker_storage L' ! 0) = pd" and
    run: "back_propagation example_layer [(0, 1)] [3] 0 =
       and_then (node_back_propagation example_input pd 0) (\<lambda>r. Inr (r, L'))"
    by (auto simp: example_layer_def)
  from cells have "pd ! 0 = 3 / 2" "pd ! 1 = - (3 / 2)"
    by (simp_all add: dot_def example_layer_def example_input_def)
  with len have "pd = [3 / 2, - (3 / 2)]" by (intro pair_by_nth)
  with run stored have "back_propagation example_layer [(0, 1)] [3] 0 = Inr ([3 / 2, - (3 / 2)], L') \<and>
         ws_prev_delta (worker_storage L' ! 0) = [3 / 2, - (3 / 2)]"
    by (simp add: example_input_def)
  then show ?thesis using example_layer_ok h by blast
qed

text \<open>
  Claim C3. Under the same conditions, and for every partition of \<open>[0, out_size)\<close> into
  blocks, \<open>back_propagation\<close> adds to the worker's gradients and overwrites none: every
  \<open>dW[c * out_size + i]\<close> ends as its prior value plus \<open>curr_delta[i]\<close> times the
  upstream output \<open>c\<close>; with a bias every \<open>db[i]\<close> ends as its prior value plus
  \<open>curr_delta[i]\<close>, without one \<open>db\<close> is as before. The witness starts from gradients
  that are not zero.
\<close>

theorem back_propagation_accumulates_gradients:
  assumes "layer_ok L" and "index < length (worker_storage L)" and "prev L = Some p"
    and "partitions 0 (unat (out_size L)) blocks"
    and "length curr_delta = unat (out_size L)"
    and "length (node_output p index) = unat (in_size L)"
  shows "\<exists>pd dw dbias.
     back_propagation L blocks curr_delta index =
       and_then (node_back_propagation p pd index)
         (\<lambda>r. Inr (r, set_worker_storage L index
            ((worker_storage L ! index)\<lparr>ws_prev_delta := pd, ws_dW := dw, ws_db := dbias\<rparr>))) \<and>
     length dw = length (ws_dW (worker_storage L ! index)) \<and>
     length dbias = length (ws_db (worker_storage L ! index)) \<and>
     (\<forall>c<unat (in_size L). \<forall>i<unat (out_size L).
        dw ! (c * unat (out_size L) + i) =
          ws_dW (worker_storage L ! index) ! (c * unat (out_size L) + i)
          + curr_delta ! i * node_output p index ! c) \<and>
     (has_bias L \<longrightarrow>
        (\<forall>i<unat (out_size L). dbias ! i = ws_db (worker_storage L ! index) ! i + curr_delta ! i)) \<and>
     (\<not> has_bias L \<longrightarrow> dbias = ws_db (worker_storage L ! index))"
proof -
  let ?ws = "worker_storage L ! index"
  let ?pd = "map (spec_prev_delta L curr_delta p index) [0..<unat (in_size L)]"
  have ws: "storage_ok L ?ws" using assms(1,2) by (rule storage_ok_nth)
  from back_propagation_eq[OF assms(1-4), of curr_delta] assms(5,6)
  obtain dw dbias where
    run: "back_propagation L blocks curr_delta index =
       and_then (node_back_propagation p ?pd index)
         (\<lambda>r. Inr (r, set_worker_storage L index
            (?ws\<lparr>ws_prev_delta := ?pd, ws_dW := dw, ws_db := dbias\<rparr>)))" and
    lens: "length dw = weight_dim L" "length dbias = bias_dim L" and
    cells: "\<forall>c<unat (in_size L). \<forall>i<unat (out_size L).
        dw ! (c * unat (out_size L) + i) =
          ws_dW ?ws ! (c * unat (out_size L) + i) + curr_delta ! i * node_output p index ! c" and
    bias: "\<forall>i<bias_dim L. dbias ! i = ws_db ?ws ! i + curr_delta ! i"
    by auto
  have "length dw = length (ws_dW ?ws)" "length dbias = length (ws_db ?ws)"
    using lens ws by (simp_all add: storage_ok_def)
  moreover have "has_bias L \<longrightarrow>
        (\<forall>i<unat (out_size L). dbias ! i = ws_db ?ws ! i + curr_delta ! i)"
    using bias by (simp add: bias_dim_def)
  moreover have "\<not> has_bias L \<longrightarrow> dbias = ws_db ?ws"
    using lens(2) ws by (auto simp: bias_dim_def storage_ok_def)
  ultimately show ?thesis using run cells by blast
qed

theorem back_propagation_accumulates_gradients_witness:
  "layer_ok (example_layer\<lparr>worker_storage :=
       [example_storage\<lparr>ws_dW := [1, 10], ws_db := [5]\<rparr>, example_storage]\<rparr>) \<and>
   partitions 0 (unat (out_size example_layer)) [(0, 1)] \<and>
   (\<exists>r L'. back_propagation
        (example_layer\<lparr>worker_storage :=
           [example_storage\<lparr>ws_dW := [1, 10], ws_db := [5]\<rparr>, example_storage]\<rparr>)
        [(0, 1)] [3] 0 = Inr (r, L') \<and>
      ws_dW (worker_storage L' ! 0) = [7, 22] \<and> ws_db (worker_storage L' ! 0) = [8])"
proof -
  let ?L = "example_layer\<lparr>worker_storage :=
       [example_storage\<lparr>ws_dW := [1, 10], ws_db := [5]\<rparr>, example_storage]\<rparr>"
  have ok: "layer_ok ?L"
    by (simp add: layer_ok_def storage_ok_def weight_dim_def bias_dim_def
        example_layer_def example_storage_def)
  have h: "0 < length (worker_storage ?L)"
    "prev ?L = Some example_input"
    "partitions 0 (unat (out_size ?L)) [(0, 1)]"
    "length [3 :: real] = unat (out_size ?L)"
    "length (node_output example_input 0) = unat (in_size ?L)"
    by (simp_all add: example_layer_def example_input_def)
  from back_propagation_accumulates_gradients[OF ok h]
  obtain pd dw dbias where
    run: "back_propagation ?L [(0, 1)] [3] 0 =
       and_then (node_back_propagation example_input pd 0)
         (\<lambda>r. Inr (r, set_worker_storage ?L 0
            ((worker_storage ?L ! 0)\<lparr>ws_prev_delta := pd, ws_dW := dw, ws_db := dbias\<rparr>)))" and
    lens: "length dw = 2" "length dbias = 1" and
    cells: "\<forall>c<2. dw ! c = [1, 10] ! c + 3 * [2, 4] ! c" and
    bias: "dbias ! 0 = 8"
    by (auto simp: example_layer_def example_storage_def example_input_def)
  from cells have "dw ! 0 = 7" "dw ! 1 = 22" by simp_all
  with lens have dw: "dw = [7, 22]" by (intro pair_by_nth)
  from lens bias have dbias: "dbias = [8]" by (intro singleton_by_nth)
  have "back_propagation ?L [(0, 1)] [3] 0 =
          Inr (pd, set_worker_storage ?L 0
            ((worker_storage ?L ! 0)\<lparr>ws_prev_delta := pd, ws_dW := [7, 22], ws_db := [8]\<rparr>))"
    using run dw dbias by (simp add: example_input_def)
  moreover have "ws_dW (worker_storage (set_worker_storage ?L 0
            ((worker_storage ?L ! 0)\<lparr>ws_prev_delta := pd, ws_dW := [7, 22], ws_db := [8]\<rparr>)) ! 0)
          = [7, 22]"
    "ws_db (worker_storage (set_worker_storage ?L 0
            ((worker_storage ?L ! 0)\<lparr>ws_prev_delta := pd, ws_dW := [7, 22], ws_db := [8]\<rparr>)) ! 0)
          = [8]"
    by (simp_all add: set_worker_storage_def)
  ultimately show ?thesis using ok h(3) by (auto simp: example_layer_def)
qed

text \<open>
  Claim C4. For a layer that satisfies the invariants, with an upstream node \<open>p\<close> and a
  second-order delta of length \<open>out_size\<close>, \<open>back_propagation_2nd\<close> adds
  \<open>current_delta2[r]\<close> times the square of the upstream output \<open>c\<close> to
  \<open>Whessian[c * out_size + r]\<close>, adds \<open>current_delta2[r]\<close> to \<open>bhessian[r]\<close> when there
  is a bias, overwrites \<open>prev_delta2[c]\<close> with
  \<open>(\<Sum>r. current_delta2[r] * W[c * out_size + r]\<^sup>2) * df(upstream output c)\<^sup>2\<close>, the sum
  accumulated from \<open>0\<close> in the order of \<open>r\<close>, and returns what the second-order pass
  of the upstream node makes of \<open>prev_delta2\<close>. The upstream output is the one cached
  for worker \<open>0\<close>.
\<close>

theorem back_propagation_2nd_accumulates:
  assumes "layer_ok L" and "prev L = Some p"
    and "length current_delta2 = unat (out_size L)"
    and "length (node_output p 0) = unat (in_size L)"
  shows "\<exists>wh bh pd2.
     back_propagation_2nd L current_delta2 =
       and_then (node_back_propagation_2nd p pd2)
         (\<lambda>r. Inr (r, L\<lparr>Whessian := wh, bhessian := bh, prev_delta2 := pd2\<rparr>)) \<and>
     length wh = length (Whessian L) \<and> length bh = length (bhessian L) \<and>
     (\<forall>c<unat (in_size L). \<forall>r<unat (out_size L).
        wh ! (c * unat (out_size L) + r) =
          Whessian L ! (c * unat (out_size L) + r)
          + current_delta2 ! r * sqr (node_output p 0 ! c)) \<and>
     (has_bias L \<longrightarrow> (\<forall>r<unat (out_size L). bh ! r = bhessian L ! r + current_delta2 ! r)) \<and>
     (\<not> has_bias L \<longrightarrow> bh = bhessian L) \<and>
     length pd2 = unat (in_size L) \<and>
     (\<forall>c<unat (in_size L).
        pd2 ! c =
          foldl (\<lambda>s r. s + current_delta2 ! r * sqr (W L ! (c * unat (out_size L) + r))) 0
            [0..<unat (out_size L)]
          * sqr (node_df p (node_output p 0 ! c)))"
proof -
  let ?pd2 = "map (spec_prev_delta2 L current_delta2 p) [0..<unat (in_size L)]"
  from back_propagation_2nd_eq[OF assms(1,2), of current_delta2] assms(3,4)
  obtain wh bh where
    run: "back_propagation_2nd L current_delta2 =
       and_then (node_back_propagation_2nd p ?pd2)
         (\<lambda>r. Inr (r, L\<lparr>Whessian := wh, bhessian := bh, prev_delta2 := ?pd2\<rparr>))" and
    lens: "length wh = weight_dim L" "length bh = bias_dim L" and
    cells: "\<forall>c<unat (in_size L). \<forall>r<unat (out_size L).
        wh ! (c * unat (out_size L) + r) =
          Whessian L ! (c * unat (out_size L) + r)
          + current_delta2 ! r * sqr (node_output p 0 ! c)" and
    bias: "\<forall>r<bias_dim L. bh ! r = bhessian L ! r + current_delta2 ! r"
    by auto
  have "length wh = length (Whessian L)" "length bh = length (bhessian L)"
    using lens assms(1) by (simp_all add: layer_ok_def)
  moreover have "has_bias L \<longrightarrow>
      (\<forall>r<unat (out_size L). bh ! r = bhessian L ! r + current_delta2 ! r)"
    using bias by (simp add: bias_dim_def)
  moreover have "\<not> has_bias L \<longrightarrow> bh = bhessian L"
    using lens(2) assms(1) by (auto simp: bias_dim_def layer_ok_def)
  moreover have "length ?pd2 = unat (in_size L)" by simp
  moreover have "\<forall>c<unat (in_size L).
        ?pd2 ! c =
          foldl (\<lambda>s r. s + current_delta2 ! r * sqr (W L ! (c * unat (out_size L) + r))) 0
            [0..<unat (out_size L)]
          * sqr (node_df p (node_output p 0 ! c))"
    by (simp add: spec_prev_delta2_def)
  ultimately show ?thesis using run cells by blast
qed

theorem back_propagation_2nd_accumulates_witness:
  "layer_ok (example_layer\<lparr>Whessian := [1, 2], bhessian := [4]\<rparr>) \<and>
   back_propagation_2nd (example_layer\<lparr>Whessian := [1, 2], bhessian := [4]\<rparr>) [3] =
     Inr ([3 / 4, 3 / 4],
          example_layer\<lparr>Whessian := [13, 50], bhessian := [7], prev_delta2 := [3 / 4, 3 / 4]\<rparr>)"
proof -
  let ?L = "example_layer\<lparr>Whessian := [1, 2], bhessian := [4]\<rparr>"
  have ok: "layer_ok ?L"
    by (simp add: layer_ok_def storage_ok_def weight_dim_def bias_dim_def
        example_layer_def example_storage_def)
  have h: "prev ?L = Some example_input"
    "length [3 :: real] = unat (out_size ?L)"
    "length (node_output example_input 0) = unat (in_size ?L)"
    by (simp_all add: example_layer_def example_input_def)
  from back_propagation_2nd_accumulates[OF ok h]
  obtain wh bh pd2 where
    run: "back_propagation_2nd ?L [3] =
       and_then (node_back_propagation_2nd example_input pd2)
         (\<lambda>r. Inr (r, ?L\<lparr>Whessian := wh, bhessian := bh, prev_delta2 := pd2\<rparr>))" and
    lens: "length wh = 2" "length bh = 1" "length pd2 = 2" and
    cells: "\<forall>c<2. wh ! c = [1, 2] ! c + 3 * sqr ([2, 4] ! c)" and
    bias: "bh ! 0 = 7" and
    deltas: "\<forall>c<2. pd2 ! c = (0 + 3 * sqr ([1 / 2, - (1 / 2)] ! c)) * sqr 1"
    by (auto simp: example_layer_def example_input_def)
  from cells have "wh ! 0 = 13" "wh ! 1 = 50" by (simp_all add: sqr_def)
  with lens have wh: "wh = [13, 50]" by (intro pair_by_nth)
  from lens bias have bh: "bh = [7]" by (intro singleton_by_nth)
  from deltas have "pd2 ! 0 = 3 / 4" "pd2 ! 1 = 3 / 4" by (simp_all add: sqr_def)
  with lens have pd2: "pd2 = [3 / 4, 3 / 4]" by (intro pair_by_nth)
  show ?thesis using ok run wh bh pd2 by (simp add: example_input_def example_layer_def)
qed

text \<open>
  Claim C5 says that a vector of the wrong length makes a pass fail fast with an
  invalid-dimension condition, without truncation and without a read out of bounds.
  The passes have no length check. The example layer has two inputs: given three
  values it returns what it returns for the first two, and given one value it reads
  the input out of range.
\<close>

theorem dimension_mismatch_counterexample:
  "length [2, 4, 7 :: real] \<noteq> unat (in_size example_layer) \<and>
   forward_propagation example_layer [2, 4, 7] 0 =
     Inr ([- (9 / 10)],
          example_layer\<lparr>worker_storage :=
            [example_storage\<lparr>ws_a := [- (9 / 10)], ws_output := [- (9 / 10)]\<rparr>,
             example_storage]\<rparr>) \<and>
   length [2 :: real] \<noteq> unat (in_size example_layer) \<and>
   forward_propagation example_layer [2] 0 = Inl OutOfRange"
  by (simp add: model_defs)

text \<open>
  Claim C5, amended. The passes check no length. \<open>forward_propagation\<close> reads the first
  \<open>in_size\<close> elements of its input, \<open>back_propagation\<close> and \<open>back_propagation_2nd\<close> the
  first \<open>out_size\<close> elements of their delta: a longer vector gives what its prefix
  gives. A shorter vector is read out of range: by \<open>forward_propagation\<close> when the
  layer has an output, by \<open>back_propagation\<close> when the layer has an input and an
  upstream node.
\<close>

theorem propagation_reads_prefix:
  "(unat (in_size L) \<le> length inp \<longrightarrow>
      forward_propagation L inp index
      = forward_propagation L (take (unat (in_size L)) inp) index) \<and>
   (partitions 0 (unat (out_size L)) blocks \<and> unat (out_size L) \<le> length curr_delta \<longrightarrow>
      back_propagation L blocks curr_delta index
      = back_propagation L blocks (take (unat (out_size L)) curr_delta) index) \<and>
   (unat (out_size L) \<le> length current_delta2 \<longrightarrow>
      back_propagation_2nd L current_delta2
      = back_propagation_2nd L (take (unat (out_size L)) current_delta2)) \<and>
   (layer_ok L \<and> index < length (worker_storage L) \<and>
    length short_inp < unat (in_size L) \<and> 0 < unat (out_size L) \<longrightarrow>
      forward_propagation L short_inp index = Inl OutOfRange) \<and>
   (index < length (worker_storage L) \<and> prev L \<noteq> None \<and>
    length short_delta < unat (out_size L) \<and> 0 < unat (in_size L) \<longrightarrow>
      back_propagation L blocks short_delta index = Inl OutOfRange)"
  using forward_propagation_take[of L inp index]
    back_propagation_take[of L blocks curr_delta index]
    back_propagation_2nd_take[of L current_delta2]
    forward_propagation_short_input[of L index short_inp]
    back_propagation_short_delta[of index L short_delta blocks]
  by blast

theorem propagation_reads_prefix_witness:
  "unat (in_size example_layer) \<le> length [2, 4, 7 :: real] \<and>
   partitions 0 (unat (out_size example_layer)) [(0, 1)] \<and>
   unat (out_size example_layer) \<le> length [3, 8 :: real] \<and>
   layer_ok example_layer \<and> 0 < length (worker_storage example_layer) \<and>
   length [2 :: real] < unat (in_size example_layer) \<and> 0 < unat (out_size example_layer) \<and>
   prev example_layer \<noteq> None \<and> length ([] :: real list) < unat (out_size example_layer) \<and>
   0 < unat (in_size example_layer) \<and>
   forward_propagation example_layer [2, 4, 7] 0 = forward_propagation example_layer [2, 4] 0 \<and>
   back_propagation example_layer [(0, 1)] [3, 8] 0
     = back_propagation example_layer [(0, 1)] [3] 0 \<and>
   back_propagation_2nd example_layer [3, 8] = back_propagation_2nd example_layer [3] \<and>
   forward_propagation example_layer [2] 0 = Inl OutOfRange \<and>
   back_propagation example_layer [(0, 1)] [] 0 = Inl OutOfRange"
proof -
  have h: "unat (in_size example_layer) \<le> length [2, 4, 7 :: real]"
    "partitions 0 (unat (out_size example_layer)) [(0, 1)]"
    "unat (out_size example_layer) \<le> length [3, 8 :: real]"
    "0 < length (worker_storage example_layer)"
    "length [2 :: real] < unat (in_size example_layer)" "0 < unat (out_size example_layer)"
    "prev example_layer \<noteq> None" "length ([] :: real list) < unat (out_size example_layer)"
    "0 < unat (in_size example_layer)"
    by (simp_all add: example_layer_def)
  have t: "take (unat (in_size example_layer)) [2, 4, 7 :: real] = [2, 4]"
    "take (unat (out_size example_layer)) [3, 8 :: real] = [3]"
    by (simp_all add: example_layer_def)
  show ?thesis
    using propagation_reads_prefix[of example_layer "[2, 4, 7]" 0 "[(0, 1)]" "[3, 8]" "[3, 8]"
        "[2]" "[]"]
      h example_layer_ok
    by (simp only: t) blast
qed

text \<open>
  Claim C7. A call of \<open>forward_propagation\<close> that returns has changed the buffers \<open>a\<close>
  and \<open>output\<close> of the worker storage \<open>index\<close> and nothing else of the layer: \<open>W\<close>,
  \<open>b\<close>, the Hessian accumulators, \<open>prev_delta2\<close>, the worker storage of every other
  worker id and the gradients \<open>dW\<close>, \<open>db\<close> and \<open>prev_delta\<close> of this one are as before.
  (Claim C1 shows that the call returns.)
\<close>

theorem forward_propagation_frame:
  assumes "forward_propagation L inp index = Inr (r, L')"
  shows "(\<exists>av out. L' = L\<lparr>worker_storage :=
              (worker_storage L)[index := (worker_storage L ! index)\<lparr>ws_a := av, ws_output := out\<rparr>]\<rparr>) \<and>
         W L' = W L \<and> b L' = b L \<and> Whessian L' = Whessian L \<and> bhessian L' = bhessian L \<and>
         prev_delta2 L' = prev_delta2 L \<and>
         length (worker_storage L') = length (worker_storage L) \<and>
         (\<forall>j<length (worker_storage L). j \<noteq> index \<longrightarrow>
            worker_storage L' ! j = worker_storage L ! j) \<and>
         ws_dW (worker_storage L' ! index) = ws_dW (worker_storage L ! index) \<and>
         ws_db (worker_storage L' ! index) = ws_db (worker_storage L ! index) \<and>
         ws_prev_delta (worker_storage L' ! index) = ws_prev_delta (worker_storage L ! index)"
proof -
  from forward_propagation_Inr[OF assms] obtain av out where
    index: "index < length (worker_storage L)" and
    L': "L' = L\<lparr>worker_storage :=
              (worker_storage L)[index := (worker_storage L ! index)\<lparr>ws_a := av, ws_output := out\<rparr>]\<rparr>"
    by (auto simp: set_worker_storage_def)
  have "\<exists>av out. L' = L\<lparr>worker_storage :=
              (worker_storage L)[index := (worker_storage L ! index)\<lparr>ws_a := av, ws_output := out\<rparr>]\<rparr>"
    using L' by blast
  moreover have "W L' = W L" "b L' = b L" "Whessian L' = Whessian L" "bhessian L' = bhessian L"
    "prev_delta2 L' = prev_delta2 L" "length (worker_storage L') = length (worker_storage L)"
    by (simp_all add: L')
  moreover have "\<forall>j<length (worker_storage L). j \<noteq> index \<longrightarrow>
            worker_storage L' ! j = worker_storage L ! j"
    by (simp add: L')
  moreover have "ws_dW (worker_storage L' ! index) = ws_dW (worker_storage L ! index)"
    "ws_db (worker_storage L' ! index) = ws_db (worker_storage L ! index)"
    "ws_prev_delta (worker_storage L' ! index) = ws_prev_delta (worker_storage L ! index)"
    using index by (simp_all add: L')
  ultimately show ?thesis by blast
qed

theorem forward_propagation_frame_witness:
  "forward_propagation example_layer [2, 4] 1 =
     Inr ([- (9 / 10)],
          example_layer\<lparr>worker_storage :=
            [example_storage,
             example_storage\<lparr>ws_a := [- (9 / 10)], ws_output := [- (9 / 10)]\<rparr>]\<rparr>) \<and>
   W (example_layer\<lparr>worker_storage :=
            [example_storage,
             example_storage\<lparr>ws_a := [- (9 / 10)], ws_output := [- (9 / 10)]\<rparr>]\<rparr>) = W example_layer \<and>
   worker_storage (example_layer\<lparr>worker_storage :=
            [example_storage,
             example_storage\<lparr>ws_a := [- (9 / 10)], ws_output := [- (9 / 10)]\<rparr>]\<rparr>) ! 0
     = worker_storage example_layer ! 0"
proof -
  have run: "forward_propagation example_layer [2, 4] 1 =
     Inr ([- (9 / 10)],
          example_layer\<lparr>worker_storage :=
            [example_storage,
             example_storage\<lparr>ws_a := [- (9 / 10)], ws_output := [- (9 / 10)]\<rparr>]\<rparr>)"
    by (simp add: model_defs)
  from forward_propagation_frame[OF run] show ?thesis
    using run by (simp add: example_layer_def)
qed

text \<open>
  Claim C6. For a layer without a bias: \<open>forward_propagation\<close> computes the weighted
  sums alone, no bias term added; under the invariants the bias buffers \<open>b\<close>,
  \<open>bhessian\<close> and every \<open>db\<close> are empty; and whatever the arguments, a pass that
  returns leaves the three of them as they were.
\<close>

theorem no_bias_isolation:
  assumes "\<not> has_bias L"
  shows "(layer_ok L \<and> index < length (worker_storage L) \<and> length inp = unat (in_size L) \<longrightarrow>
            (\<exists>av out.
               length av = unat (out_size L) \<and> length out = unat (out_size L) \<and>
               (\<forall>i<unat (out_size L). av ! i = spec_weighted_sum L inp i \<and> out ! i = h_f L av i) \<and>
               forward_propagation L inp index =
                 (case next L of
                    None \<Rightarrow>
                      Inr (out, set_worker_storage L index
                                  ((worker_storage L ! index)\<lparr>ws_a := av, ws_output := out\<rparr>))
                  | Some n \<Rightarrow>
                      and_then (node_forward_propagation n out index)
                        (\<lambda>r. Inr (r, set_worker_storage L index
                                  ((worker_storage L ! index)\<lparr>ws_a := av, ws_output := out\<rparr>)))))) \<and>
         (layer_ok L \<longrightarrow> bias_buffers L = ([], [], replicate (length (worker_storage L)) [])) \<and>
         (\<forall>r L'. forward_propagation L inp index = Inr (r, L') \<longrightarrow>
                   bias_buffers L' = bias_buffers L) \<and>
         (\<forall>r L'. back_propagation L blocks curr_delta index = Inr (r, L') \<longrightarrow>
                   bias_buffers L' = bias_buffers L) \<and>
         (\<forall>r L'. back_propagation_2nd L current_delta2 = Inr (r, L') \<longrightarrow>
                   bias_buffers L' = bias_buffers L)"
proof (intro conjI allI impI)
  assume ok: "layer_ok L \<and> index < length (worker_storage L) \<and> length inp = unat (in_size L)"
  then have eq: "forward_propagation L inp index =
     (let L' = set_worker_storage L index
                 ((worker_storage L ! index)\<lparr>ws_a := spec_a L inp, ws_output := spec_out L inp\<rparr>)
      in case next L of
           None \<Rightarrow> Inr (spec_out L inp, L')
         | Some n \<Rightarrow> and_then (node_forward_propagation n (spec_out L inp) index)
                       (\<lambda>r. Inr (r, L')))"
    by (intro forward_propagation_eq) simp_all
  have "length (spec_a L inp) = unat (out_size L)" "length (spec_out L inp) = unat (out_size L)"
    by (simp_all add: spec_a_def spec_out_def)
  moreover have "\<forall>i<unat (out_size L).
      spec_a L inp ! i = spec_weighted_sum L inp i \<and> spec_out L inp ! i = h_f L (spec_a L inp) i"
    using assms by (simp add: spec_a_def spec_out_def spec_pre_activation_def)
  ultimately show "\<exists>av out.
               length av = unat (out_size L) \<and> length out = unat (out_size L) \<and>
               (\<forall>i<unat (out_size L). av ! i = spec_weighted_sum L inp i \<and> out ! i = h_f L av i) \<and>
               forward_propagation L inp index =
                 (case next L of
                    None \<Rightarrow>
                      Inr (out, set_worker_storage L index
                                  ((worker_storage L ! index)\<lparr>ws_a := av, ws_output := out\<rparr>))
                  | Some n \<Rightarrow>
                      and_then (node_forward_propagation n out index)
                        (\<lambda>r. Inr (r, set_worker_storage L index
                                  ((worker_storage L ! index)\<lparr>ws_a := av, ws_output := out\<rparr>))))"
    using eq unfolding Let_def by blast
next
  assume "layer_ok L"
  then show "bias_buffers L = ([], [], replicate (length (worker_storage L)) [])"
    using assms by (rule layer_ok_no_bias_buffers)
next
  fix r L' assume "forward_propagation L inp index = Inr (r, L')"
  from forward_propagation_Inr[OF this] show "bias_buffers L' = bias_buffers L"
    by (auto simp: bias_buffers_set_worker_storage)
next
  fix r L' assume "back_propagation L blocks curr_delta index = Inr (r, L')"
  from back_propagation_Inr[OF this] obtain p pd dw dbias where
    index: "index < length (worker_storage L)" and
    p: "prev L = Some p" and
    loop: "for_each blocks (bp_accumulate L curr_delta (node_output p index))
              (ws_dW (worker_storage L ! index), ws_db (worker_storage L ! index))
              = Inr (dw, dbias)" and
    L': "L' = set_worker_storage L index
                   ((worker_storage L ! index)\<lparr>ws_prev_delta := pd, ws_dW := dw, ws_db := dbias\<rparr>)"
    by (elim exE conjE)
  from bp_accumulate_no_bias[OF assms loop] have "dbias = ws_db (worker_storage L ! index)" .
  then show "bias_buffers L' = bias_buffers L"
    using index by (simp add: L' bias_buffers_set_worker_storage)
next
  fix r L' assume "back_propagation_2nd L current_delta2 = Inr (r, L')"
  from back_propagation_2nd_Inr[OF this] assms obtain wh pd2 where
    "L' = L\<lparr>Whessian := wh, bhessian := bhessian L, prev_delta2 := pd2\<rparr>"
    by auto
  then show "bias_buffers L' = bias_buffers L" by (simp add: bias_buffers_def)
qed

theorem no_bias_isolation_witness:
  "\<not> has_bias example_no_bias \<and> layer_ok example_no_bias \<and>
   bias_buffers example_no_bias = ([], [], [[], []]) \<and>
   (\<exists>L'. forward_propagation example_no_bias [2, 4] 0 = Inr ([- 1], L') \<and>
         bias_buffers L' = ([], [], [[], []])) \<and>
   (\<exists>L'. back_propagation example_no_bias [(0, 1)] [3] 0 = Inr ([3 / 2, - (3 / 2)], L') \<and>
         bias_buffers L' = ([], [], [[], []])) \<and>
   (\<exists>L'. back_propagation_2nd example_no_bias [3] = Inr ([3 / 4, 3 / 4], L') \<and>
         bias_buffers L' = ([], [], [[], []]))"
proof -
  have nb: "\<not> has_bias example_no_bias" by (simp add: example_no_bias_def)
  note iso = no_bias_isolation[OF nb, of 0 "[2, 4]" "[(0, 1)]" "[3]" "[3]"]
  have bb: "bias_buffers example_no_bias = ([], [], [[], []])"
    using iso example_no_bias_ok by (simp add: example_no_bias_def)
  have lens: "0 < length (worker_storage example_no_bias)"
    "length [2, 4 :: real] = unat (in_size example_no_bias)"
    by (simp_all add: example_no_bias_def example_layer_def)
  from iso example_no_bias_ok lens obtain av out where
    av: "length av = 1" "av ! 0 = spec_weighted_sum example_no_bias [2, 4] 0" and
    out: "length out = 1" "out ! 0 = av ! 0" and
    run: "forward_propagation example_no_bias [2, 4] 0 =
            Inr (out, set_worker_storage example_no_bias 0
                   ((worker_storage example_no_bias ! 0)\<lparr>ws_a := av, ws_output := out\<rparr>))"
    by (auto simp: example_no_bias_def example_layer_def)
  have "spec_weighted_sum example_no_bias [2, 4] 0 = - 1"
    by (simp add: spec_weighted_sum_def example_no_bias_def example_layer_def upt_conv_Cons)
  with av have "av = [- 1]" by (intro singleton_by_nth) simp_all
  with out have "out = [- 1]" by (intro singleton_by_nth) simp_all
  with run iso bb have fp: "\<exists>L'. forward_propagation example_no_bias [2, 4] 0 = Inr ([- 1], L') \<and>
         bias_buffers L' = ([], [], [[], []])"
    by simp
  have "\<exists>L'. back_propagation example_no_bias [(0, 1)] [3] 0 = Inr ([3 / 2, - (3 / 2)], L')"
    by (simp add: model_defs example_no_bias_def Let_def)
  with iso bb have bp: "\<exists>L'. back_propagation example_no_bias [(0, 1)] [3] 0
                             = Inr ([3 / 2, - (3 / 2)], L') \<and>
         bias_buffers L' = ([], [], [[], []])"
    by auto
  have "\<exists>L'. back_propagation_2nd example_no_bias [3] = Inr ([3 / 4, 3 / 4], L')"
    by (simp add: model_defs example_no_bias_def Let_def)
  with iso bb have bp2: "\<exists>L'. back_propagation_2nd example_no_bias [3] = Inr ([3 / 4, 3 / 4], L') \<and>
         bias_buffers L' = ([], [], [[], []])"
    by auto
  show ?thesis using nb example_no_bias_ok bb fp bp bp2 by blast
qed

text \<open>
  Claim C8 says that a pass called on a layer whose required neighbour is absent
  surfaces a malformed-chain condition to its caller. The passes test no neighbour
  reference for that and raise nothing. On the example layer without its upstream node
  both backward passes call through the null \<open>prev\<close>: the behaviour is undefined, and no
  condition and no result reaches the caller.
\<close>

theorem absent_upstream_counterexample:
  "prev example_detached = None \<and>
   back_propagation example_detached [(0, 1)] [3] 0 = Inl NullDereference \<and>
   back_propagation_2nd example_detached [3] = Inl NullDereference"
  by (simp add: example_detached_def model_defs)

text \<open>
  Claim C8, amended. The passes detect no malformed chain. With no upstream node both
  backward passes call through the null \<open>prev\<close>, their first use of it, before any
  buffer is written (\<open>back_propagation\<close> looks up the worker storage before, so an
  invalid worker id comes first): undefined behaviour, not a condition raised to the
  caller. With no downstream node \<open>forward_propagation\<close> takes the layer for the end of
  the chain and returns its own output. No pass recovers from a fault of a neighbour or
  swallows it: when the pass of the neighbour faults, the pass of the layer ends in the
  same fault.
\<close>

theorem neighbour_links_unchecked:
  fixes L :: "('a::{zero,plus,times}, 'c::len) fully_connected_layer"
  shows
  "(prev L = None \<longrightarrow>
      back_propagation L blocks curr_delta index =
        (if index < length (worker_storage L) then Inl NullDereference else Inl OutOfRange) \<and>
      back_propagation_2nd L current_delta2 = Inl NullDereference) \<and>
   (next L = None \<and> layer_ok L \<and> index < length (worker_storage L) \<and>
    unat (in_size L) \<le> length inp \<longrightarrow>
      forward_propagation L inp index =
        Inr (spec_out L inp,
             set_worker_storage L index
               ((worker_storage L ! index)\<lparr>ws_a := spec_a L inp, ws_output := spec_out L inp\<rparr>))) \<and>
   (next L = Some n \<and> layer_ok L \<and> index < length (worker_storage L) \<and>
    unat (in_size L) \<le> length inp \<and>
    node_forward_propagation n (spec_out L inp) index = Inl e \<longrightarrow>
      forward_propagation L inp index = Inl e) \<and>
   (prev L = Some p \<and> layer_ok L \<and> index < length (worker_storage L) \<and>
    partitions 0 (unat (out_size L)) blocks \<and> unat (out_size L) \<le> length curr_delta \<and>
    unat (in_size L) \<le> length (node_output p index) \<and>
    node_back_propagation p
      (map (spec_prev_delta L curr_delta p index) [0..<unat (in_size L)]) index = Inl e \<longrightarrow>
      back_propagation L blocks curr_delta index = Inl e) \<and>
   (prev L = Some p \<and> layer_ok L \<and> unat (out_size L) \<le> length current_delta2 \<and>
    unat (in_size L) \<le> length (node_output p 0) \<and>
    node_back_propagation_2nd p
      (map (spec_prev_delta2 L current_delta2 p) [0..<unat (in_size L)]) = Inl e \<longrightarrow>
      back_propagation_2nd L current_delta2 = Inl e)"
proof (intro conjI impI)
  assume "prev L = None"
  then show "back_propagation L blocks curr_delta index =
        (if index < length (worker_storage L) then Inl NullDereference else Inl OutOfRange)"
    by (simp add: back_propagation_def get_worker_storage_def rd_def)
next
  assume "prev L = None"
  then show "back_propagation_2nd L current_delta2 = Inl NullDereference"
    by (simp add: back_propagation_2nd_def)
next
  assume h: "next L = None \<and> layer_ok L \<and> index < length (worker_storage L) \<and>
    unat (in_size L) \<le> length inp"
  then show "forward_propagation L inp index =
        Inr (spec_out L inp,
             set_worker_storage L index
               ((worker_storage L ! index)\<lparr>ws_a := spec_a L inp, ws_output := spec_out L inp\<rparr>))"
    using forward_propagation_eq[of L index inp] by (simp add: Let_def)
next
  assume h: "next L = Some n \<and> layer_ok L \<and> index < length (worker_storage L) \<and>
    unat (in_size L) \<le> length inp \<and>
    node_forward_propagation n (spec_out L inp) index = Inl e"
  then show "forward_propagation L inp index = Inl e"
    using forward_propagation_eq[of L index inp] by (simp add: Let_def and_then_def)
next
  assume h: "prev L = Some p \<and> layer_ok L \<and> index < length (worker_storage L) \<and>
    partitions 0 (unat (out_size L)) blocks \<and> unat (out_size L) \<le> length curr_delta \<and>
    unat (in_size L) \<le> length (node_output p index) \<and>
    node_back_propagation p
      (map (spec_prev_delta L curr_delta p index) [0..<unat (in_size L)]) index = Inl e"
  then have "\<exists>k. back_propagation L blocks curr_delta index =
       and_then
         (node_back_propagation p
            (map (spec_prev_delta L curr_delta p index) [0..<unat (in_size L)]) index) k"
    using back_propagation_eq[of L index p blocks curr_delta] by blast
  with h show "back_propagation L blocks curr_delta index = Inl e"
    by (auto simp: and_then_def)
next
  assume h: "prev L = Some p \<and> layer_ok L \<and> unat (out_size L) \<le> length current_delta2 \<and>
    unat (in_size L) \<le> length (node_output p 0) \<and>
    node_back_propagation_2nd p
      (map (spec_prev_delta2 L current_delta2 p) [0..<unat (in_size L)]) = Inl e"
  then have "\<exists>k. back_propagation_2nd L current_delta2 =
       and_then
         (node_back_propagation_2nd p
            (map (spec_prev_delta2 L current_delta2 p) [0..<unat (in_size L)])) k"
    using back_propagation_2nd_eq[of L p current_delta2] by blast
  with h show "back_propagation_2nd L current_delta2 = Inl e"
    by (auto simp: and_then_def)
qed

theorem neighbour_links_unchecked_witness:
  "prev example_detached = None \<and> next example_detached = None \<and>
   layer_ok example_detached \<and> 0 < length (worker_storage example_detached) \<and>
   unat (in_size example_detached) \<le> length [2, 4 :: real] \<and>
   back_propagation example_detached [(0, 1)] [3] 0 = Inl NullDereference \<and>
   back_propagation_2nd example_detached [3] = Inl NullDereference \<and>
   forward_propagation example_detached [2, 4] 0 =
     Inr ([- (9 / 10)],
          example_detached\<lparr>worker_storage :=
            [example_storage\<lparr>ws_a := [- (9 / 10)], ws_output := [- (9 / 10)]\<rparr>,
             example_storage]\<rparr>) \<and>
   prev example_between = Some example_faulting \<and>
   next example_between = Some example_faulting \<and>
   layer_ok example_between \<and> 0 < length (worker_storage example_between) \<and>
   unat (in_size example_between) \<le> length [2, 4 :: real] \<and>
   partitions 0 (unat (out_size example_between)) [(0, 1)] \<and>
   unat (out_size example_between) \<le> length [3 :: real] \<and>
   unat (in_size example_between) \<le> length (node_output example_faulting 0) \<and>
   node_forward_propagation example_faulting (spec_out example_between [2, 4]) 0
     = Inl NullDereference \<and>
   node_back_propagation example_faulting
     (map (spec_prev_delta example_between [3] example_faulting 0)
        [0..<unat (in_size example_between)]) 0 = Inl NullDereference \<and>
   node_back_propagation_2nd example_faulting
     (map (spec_prev_delta2 example_between [3] example_faulting)
        [0..<unat (in_size example_between)]) = Inl NullDereference \<and>
   forward_propagation example_between [2, 4] 0 = Inl NullDereference \<and>
   back_propagation example_between [(0, 1)] [3] 0 = Inl NullDereference \<and>
   back_propagation_2nd example_between [3] = Inl NullDereference"
proof -
  have d: "prev example_detached = None" "next example_detached = None"
    "0 < length (worker_storage example_detached)"
    "unat (in_size example_detached) \<le> length [2, 4 :: real]"
    by (simp_all add: example_detached_def example_layer_def)
  have out: "spec_out example_detached [2, 4] = [- (9 / 10)]"
    "spec_a example_detached [2, 4] = [- (9 / 10)]"
    by (simp_all add: spec_out_def spec_a_def spec_pre_activation_def spec_weighted_sum_def
        example_detached_def example_layer_def upt_conv_Cons)
  have upd: "set_worker_storage example_detached 0
               ((worker_storage example_detached ! 0)
                  \<lparr>ws_a := [- (9 / 10)], ws_output := [- (9 / 10)]\<rparr>)
             = example_detached\<lparr>worker_storage :=
                 [example_storage\<lparr>ws_a := [- (9 / 10)], ws_output := [- (9 / 10)]\<rparr>,
                  example_storage]\<rparr>"
    by (simp add: set_worker_storage_def example_detached_def example_layer_def)
  have bt: "prev example_between = Some example_faulting"
    "next example_between = Some example_faulting"
    "0 < length (worker_storage example_between)"
    "unat (in_size example_between) \<le> length [2, 4 :: real]"
    "partitions 0 (unat (out_size example_between)) [(0, 1)]"
    "unat (out_size example_between) \<le> length [3 :: real]"
    "unat (in_size example_between) \<le> length (node_output example_faulting 0)"
    by (simp_all add: example_between_def example_faulting_def example_layer_def
        example_input_def)
  have f: "node_forward_propagation example_faulting (spec_out example_between [2, 4]) 0
             = Inl NullDereference"
    "node_back_propagation example_faulting
       (map (spec_prev_delta example_between [3] example_faulting 0)
          [0..<unat (in_size example_between)]) 0 = Inl NullDereference"
    "node_back_propagation_2nd example_faulting
       (map (spec_prev_delta2 example_between [3] example_faulting)
          [0..<unat (in_size example_between)]) = Inl NullDereference"
    by (simp_all add: example_faulting_def)
  note a = neighbour_links_unchecked[of example_detached "[(0, 1)]" "[3]" 0 "[3]" "[2, 4]"]
  note b = neighbour_links_unchecked[of example_between "[(0, 1)]" "[3]" 0 "[3]" "[2, 4]"
      example_faulting NullDereference example_faulting]
  have "back_propagation example_detached [(0, 1)] [3] 0 = Inl NullDereference"
    "back_propagation_2nd example_detached [3] = Inl NullDereference"
    using a d by simp_all
  moreover have "forward_propagation example_detached [2, 4] 0 =
     Inr ([- (9 / 10)],
          example_detached\<lparr>worker_storage :=
            [example_storage\<lparr>ws_a := [- (9 / 10)], ws_output := [- (9 / 10)]\<rparr>,
             example_storage]\<rparr>)"
    using a d example_detached_ok by (simp only: out upd)
  moreover have "forward_propagation example_between [2, 4] 0 = Inl NullDereference"
    "back_propagation example_between [(0, 1)] [3] 0 = Inl NullDereference"
    "back_propagation_2nd example_between [3] = Inl NullDereference"
    using b bt f example_between_ok by blast+
  ultimately show ?thesis
    using d bt f example_detached_ok example_between_ok by blast
qed

text \<open>
  Claim C9. In the arithmetic of \<^verbatim>\<open>size_t\<close>, \<open>connection_size\<close> is
  \<open>in_size * out_size + (has_bias ? out_size : 0)\<close>, \<open>fan_in_size\<close> is \<open>in_size\<close> and
  \<open>fan_out_size\<close> is \<open>out_size\<close>; the equations hold between the numbers whenever
  the value fits \<^verbatim>\<open>size_t\<close> (for the fans, whenever \<^verbatim>\<open>cnn_size_t\<close> is no wider than
  \<^verbatim>\<open>size_t\<close>). The queries are functions of the layer and return no layer: they
  change nothing.
\<close>

theorem query_operations:
  fixes L :: "('a, 'c::len) fully_connected_layer"
  shows "(connection_size L :: 's::len word) =
           ucast (in_size L) * ucast (out_size L) + (if has_bias L then ucast (out_size L) else 0) \<and>
         (fan_in_size L :: 's word) = ucast (in_size L) \<and>
         (fan_out_size L :: 's word) = ucast (out_size L) \<and>
         (unat (in_size L) * unat (out_size L) + (if has_bias L then unat (out_size L) else 0)
            < 2 ^ LENGTH('s) \<longrightarrow>
          unat (connection_size L :: 's word) =
            unat (in_size L) * unat (out_size L) + (if has_bias L then unat (out_size L) else 0)) \<and>
         (LENGTH('c) \<le> LENGTH('s) \<longrightarrow>
          unat (fan_in_size L :: 's word) = unat (in_size L) \<and>
          unat (fan_out_size L :: 's word) = unat (out_size L))"
proof (intro conjI impI)
  show "(connection_size L :: 's word) =
           ucast (in_size L) * ucast (out_size L) + (if has_bias L then ucast (out_size L) else 0)"
    by (simp add: connection_size_def)
  show "(fan_in_size L :: 's word) = ucast (in_size L)" by (simp add: fan_in_size_def)
  show "(fan_out_size L :: 's word) = ucast (out_size L)" by (simp add: fan_out_size_def)
next
  let ?n = "unat (in_size L) * unat (out_size L) + (if has_bias L then unat (out_size L) else 0)"
  assume "?n < 2 ^ LENGTH('s)"
  then have "unat (of_nat ?n :: 's word) = ?n" by (simp only: unat_of_nat mod_less)
  then show "unat (connection_size L :: 's word) = ?n" by (simp only: connection_size_of_nat)
next
  assume le: "LENGTH('c) \<le> LENGTH('s)"
  have up: "unat (ucast x :: 's word) = unat x" for x :: "'c word"
  proof -
    have "unat x < 2 ^ LENGTH('c)" by (rule unsigned_less)
    also have "(2::nat) ^ LENGTH('c) \<le> 2 ^ LENGTH('s)" using le by (rule power_increasing) simp
    finally have "unat x < 2 ^ LENGTH('s)" .
    then have "unat (of_nat (unat x) :: 's word) = unat x" by (simp only: unat_of_nat mod_less)
    then show ?thesis by simp
  qed
  show "unat (fan_in_size L :: 's word) = unat (in_size L)"
    by (simp only: fan_in_size_def up)
  show "unat (fan_out_size L :: 's word) = unat (out_size L)"
    by (simp only: fan_out_size_def up)
qed

theorem query_operations_witness:
  "(connection_size example_layer :: 64 word) = 3 \<and>
   (fan_in_size example_layer :: 64 word) = 2 \<and>
   (fan_out_size example_layer :: 64 word) = 1 \<and>
   unat (in_size example_layer) * unat (out_size example_layer)
     + (if has_bias example_layer then unat (out_size example_layer) else 0) < 2 ^ LENGTH(64) \<and>
   unat (connection_size example_layer :: 64 word) = 3 \<and>
   LENGTH(32) \<le> LENGTH(64) \<and>
   unat (fan_in_size example_layer :: 64 word) = 2 \<and>
   unat (fan_out_size example_layer :: 64 word) = 1"
  using query_operations[of example_layer, where 's = 64]
  by (simp add: example_layer_def)

text \<open>
  Claim C10. The second-order pass reads the upstream output cached for worker \<open>0\<close>:
  its outcome is the same for any two upstream nodes that agree on that output (and
  on \<open>df\<close> and their own second-order pass), whatever they cache for the other
  workers, and it does not depend on the worker storage of the layer, so a forward
  pass of the layer leaves it as it was.
\<close>

theorem second_order_reads_worker_0:
  "(node_output p' 0 = node_output p 0 \<and> node_df p' = node_df p \<and>
    node_back_propagation_2nd p' = node_back_propagation_2nd p \<longrightarrow>
      second_order_outcome (L\<lparr>prev := Some p', worker_storage := wss\<rparr>) current_delta2
      = second_order_outcome (L\<lparr>prev := Some p\<rparr>) current_delta2) \<and>
   (forward_propagation L inp index = Inr (r, L1) \<longrightarrow>
      second_order_outcome L1 current_delta2 = second_order_outcome L current_delta2)"
proof (intro conjI impI)
  assume "node_output p' 0 = node_output p 0 \<and> node_df p' = node_df p \<and>
    node_back_propagation_2nd p' = node_back_propagation_2nd p"
  then show "second_order_outcome (L\<lparr>prev := Some p', worker_storage := wss\<rparr>) current_delta2
      = second_order_outcome (L\<lparr>prev := Some p\<rparr>) current_delta2"
    by (intro second_order_outcome_agree) simp_all
next
  assume "forward_propagation L inp index = Inr (r, L1)"
  from forward_propagation_Inr[OF this] obtain wss where "L1 = L\<lparr>worker_storage := wss\<rparr>"
    by (auto simp: set_worker_storage_def)
  then show "second_order_outcome L1 current_delta2 = second_order_outcome L current_delta2"
    by (simp add: second_order_outcome_storage)
qed

theorem second_order_reads_worker_0_witness:
  "node_output (example_input\<lparr>node_output := (\<lambda>w. if w = 0 then [2, 4] else [9, 9])\<rparr>) 0
     = node_output example_input 0 \<and>
   second_order_outcome
     (example_layer\<lparr>prev := Some (example_input\<lparr>node_output := (\<lambda>w. if w = 0 then [2, 4] else [9, 9])\<rparr>),
                    worker_storage := []\<rparr>) [3]
     = Inr ([3 / 4, 3 / 4], [12, 48], [3], [3 / 4, 3 / 4]) \<and>
   (\<exists>r L1. forward_propagation example_layer [7, 7] 1 = Inr (r, L1) \<and>
            second_order_outcome L1 [3] = Inr ([3 / 4, 3 / 4], [12, 48], [3], [3 / 4, 3 / 4]))"
proof -
  let ?p' = "example_input\<lparr>node_output := (\<lambda>w. if w = 0 then [2, 4] else [9, 9])\<rparr>"
  have agree: "node_output ?p' 0 = node_output example_input 0"
    "node_df ?p' = node_df example_input"
    "node_back_propagation_2nd ?p' = node_back_propagation_2nd example_input"
    by (simp_all add: example_input_def)
  have here: "example_layer\<lparr>prev := Some example_input\<rparr> = example_layer"
    by (simp add: example_layer_def)
  have base: "second_order_outcome example_layer [3]
              = Inr ([3 / 4, 3 / 4], [12, 48], [3], [3 / 4, 3 / 4])"
    by (simp add: second_order_outcome_def model_defs Let_def)
  obtain r L1 where run: "forward_propagation example_layer [7, 7] 1 = Inr (r, L1)"
    by (simp add: model_defs)
  note inst = second_order_reads_worker_0[of ?p' example_input "[]" example_layer "[3]" "[7, 7]" 1 r L1]
  from inst agree
  have "second_order_outcome (example_layer\<lparr>prev := Some ?p', worker_storage := []\<rparr>) [3]
        = second_order_outcome (example_layer\<lparr>prev := Some example_input\<rparr>) [3]"
    by blast
  then have first: "second_order_outcome (example_layer\<lparr>prev := Some ?p', worker_storage := []\<rparr>) [3]
        = Inr ([3 / 4, 3 / 4], [12, 48], [3], [3 / 4, 3 / 4])"
    by (simp only: here base)
  from inst run have "second_order_outcome L1 [3] = second_order_outcome example_layer [3]"
    by blast
  then have second: "second_order_outcome L1 [3] = Inr ([3 / 4, 3 / 4], [12, 48], [3], [3 / 4, 3 / 4])"
    by (simp only: base)
  from first second
  show ?thesis using agree(1) run by blast
qed

end
